theory Spec2Isabelle
  imports Complex_Main
begin

section \<open>check_estimation.c: floating-point values\<close>

text \<open>
  The program computes with \<^verbatim>\<open>typedef long double flt\<close>. The model keeps the
  classes a C floating-point value can be in: finite, the two infinities, not-a-number.
  A finite value is the real number it stands for; the two zeros are the one value
  \<open>Finite 0\<close>. Arithmetic is that of IEEE 754: an operation on finite values gives the
  exact result rounded to the format, or an infinity when the result is too large for
  it. The format of long double, and so the rounding, differs between platforms (64
  bits of precision on x86, 113 or 53 elsewhere), and the rounding direction can be
  set at run time: the rounding is a parameter \<open>rnd\<close> wherever the model computes,
  with \<open>rnd x = Some y\<close> for a result \<open>x\<close> rounded to \<open>y\<close> and \<open>rnd x = None\<close> for an
  overflow. Comparisons follow IEEE 754: every ordered comparison with a NaN operand
  is false.
\<close>

datatype flt = Finite real | PInf | MInf | NaN

fun isfinite :: "flt \<Rightarrow> bool" where
  "isfinite (Finite _) = True"
| "isfinite _ = False"

fun isnan :: "flt \<Rightarrow> bool" where
  "isnan NaN = True"
| "isnan _ = False"

fun isinf :: "flt \<Rightarrow> bool" where
  "isinf PInf = True"
| "isinf MInf = True"
| "isinf _ = False"

text \<open>
  The value an operation delivers for the exact result \<open>x\<close>. An exact zero is
  representable in every format and is not rounded; an overflow gives the infinity of
  the sign of \<open>x\<close>.
\<close>

definition rounded :: "(real \<Rightarrow> real option) \<Rightarrow> real \<Rightarrow> flt" where
  "rounded rnd x =
     (if x = 0 then Finite 0
      else case rnd x of Some y \<Rightarrow> Finite y | None \<Rightarrow> (if 0 < x then PInf else MInf))"

text \<open>\<^verbatim>\<open>a - b\<close>\<close>

fun fsub :: "(real \<Rightarrow> real option) \<Rightarrow> flt \<Rightarrow> flt \<Rightarrow> flt" where
  "fsub rnd NaN _ = NaN"
| "fsub rnd _ NaN = NaN"
| "fsub rnd (Finite a) (Finite b) = rounded rnd (a - b)"
| "fsub rnd (Finite _) PInf = MInf"
| "fsub rnd (Finite _) MInf = PInf"
| "fsub rnd PInf PInf = NaN"
| "fsub rnd PInf _ = PInf"
| "fsub rnd MInf MInf = NaN"
| "fsub rnd MInf _ = MInf"

text \<open>
  \<^verbatim>\<open>a / b\<close>. A non-zero finite value divided by zero is an infinity (its sign is that
  of a positive zero divisor here), zero divided by zero is NaN.
\<close>

fun fdiv :: "(real \<Rightarrow> real option) \<Rightarrow> flt \<Rightarrow> flt \<Rightarrow> flt" where
  "fdiv rnd NaN _ = NaN"
| "fdiv rnd _ NaN = NaN"
| "fdiv rnd (Finite a) (Finite b) =
     (if b \<noteq> 0 then rounded rnd (a / b)
      else if a = 0 then NaN else if 0 < a then PInf else MInf)"
| "fdiv rnd (Finite _) _ = Finite 0"
| "fdiv rnd PInf (Finite b) = (if 0 \<le> b then PInf else MInf)"
| "fdiv rnd MInf (Finite b) = (if 0 \<le> b then MInf else PInf)"
| "fdiv rnd _ _ = NaN"

text \<open>\<^verbatim>\<open>fabsl\<close>\<close>

fun fabsl :: "flt \<Rightarrow> flt" where
  "fabsl (Finite a) = Finite \<bar>a\<bar>"
| "fabsl PInf = PInf"
| "fabsl MInf = PInf"
| "fabsl NaN = NaN"

text \<open>\<^verbatim>\<open>a < b\<close>, and from it \<^verbatim>\<open>a > b\<close> and \<^verbatim>\<open>a <= b\<close>\<close>

fun flt_less :: "flt \<Rightarrow> flt \<Rightarrow> bool" where
  "flt_less NaN _ = False"
| "flt_less _ NaN = False"
| "flt_less (Finite a) (Finite b) = (a < b)"
| "flt_less (Finite _) PInf = True"
| "flt_less (Finite _) MInf = False"
| "flt_less PInf _ = False"
| "flt_less MInf MInf = False"
| "flt_less MInf _ = True"

definition flt_greater :: "flt \<Rightarrow> flt \<Rightarrow> bool" where
  "flt_greater a b = flt_less b a"

definition flt_le :: "flt \<Rightarrow> flt \<Rightarrow> bool" where
  "flt_le a b = (\<not> isnan a \<and> \<not> isnan b \<and> \<not> flt_less b a)"

section \<open>should_accept\<close>

text \<open>
  \<^verbatim>\<open>int should_accept(flt successes, flt cases)\<close>. The body does not mention its two
  parameters. It reads four identifiers that the file declares nowhere, \<^verbatim>\<open>f1\<close>,
  \<^verbatim>\<open>f2\<close>, \<^verbatim>\<open>abs_prec\<close> and \<^verbatim>\<open>rel_prec\<close>; they are parameters of the model,
  placed before the two declared ones, after the rounding of the arithmetic. The C
  result 1 is \<open>True\<close>, 0 is \<open>False\<close>.
\<close>

definition should_accept ::
  "(real \<Rightarrow> real option) \<Rightarrow> flt \<Rightarrow> flt \<Rightarrow> flt \<Rightarrow> flt \<Rightarrow> flt \<Rightarrow> flt \<Rightarrow> bool" where
  "should_accept rnd f1 f2 abs_prec rel_prec successes cases =
     (if isfinite f1 \<and> isfinite f2 then
        (let absdiff = fabsl (fsub rnd f1 f2);
             reldiff = fabsl (fdiv rnd (fsub rnd f1 f2) f2)
         in \<not> (flt_greater absdiff abs_prec \<and> flt_greater reldiff rel_prec))
      else if isnan f1 \<and> isnan f2 then True
      else if isinf f1 \<and> isinf f2 then
        (flt_less f1 (Finite 0) \<and> flt_less f2 (Finite 0))
        \<or> (flt_greater f1 (Finite 0) \<and> flt_greater f2 (Finite 0))
      else False)"

section \<open>Text: characters, C strings, the conversions of sscanf and printf\<close>

definition MAXLINELEN :: nat where
  "MAXLINELEN = 1024"

definition NUL :: char where
  "NUL = CHR 0x00"

definition newline :: char where
  "newline = CHR 0x0A"

text \<open>
  \<^verbatim>\<open>isspace\<close> in the C locale: space, and the five controls from tab to carriage
  return. No other byte is white space, the terminator and the bytes from 0x80 on
  included.
\<close>

definition isspace :: "char \<Rightarrow> bool" where
  "isspace c = (c = CHR 0x20 \<or> c = CHR 0x09 \<or> c = CHR 0x0A \<or> c = CHR 0x0B
                \<or> c = CHR 0x0C \<or> c = CHR 0x0D)"

text \<open>
  A line buffer is the whole \<^verbatim>\<open>char[MAXLINELEN]\<close> array, also what lies behind the
  terminator. \<open>cstr_at buf pos\<close> is the C string that starts at \<^verbatim>\<open>&buf[pos]\<close>: the
  characters up to the first NUL. With no NUL left in the array a reader runs past its
  end, which is \<open>None\<close> here.
\<close>

definition cstr_at :: "string \<Rightarrow> nat \<Rightarrow> string option" where
  "cstr_at buf pos =
     (let rest = drop pos buf
      in if NUL \<in> set rest then Some (takeWhile (\<lambda>c. c \<noteq> NUL) rest) else None)"

text \<open>
  \<^verbatim>\<open>sscanf(s,"%s",str)\<close> and \<^verbatim>\<open>sscanf(s,"%*s%n",&n)\<close> on the C string \<open>s\<close>: white space
  is skipped, then the characters up to the next white space are the token, and \<open>n\<close> is
  the number of characters consumed. With no token the conversion fails: sscanf returns
  EOF and stores nothing (\<open>None\<close>).
\<close>

definition sscanf_s :: "string \<Rightarrow> (string \<times> nat) option" where
  "sscanf_s s =
     (let ws = takeWhile isspace s;
          tok = takeWhile (\<lambda>c. \<not> isspace c) (dropWhile isspace s)
      in if tok = [] then None else Some (tok, length ws + length tok))"

text \<open>
  \<^verbatim>\<open>int scanspace(const char *str, char *res)\<close>, called with \<^verbatim>\<open>&buf[start]\<close>: the white
  space copied to \<open>res\<close> and its length. The loop reads up to the first character that
  is not white space; when every character left in the array is white space it reads
  past the end (\<open>None\<close>).
\<close>

definition scanspace :: "string \<Rightarrow> nat \<Rightarrow> (string \<times> nat) option" where
  "scanspace buf start =
     (let rest = drop start buf;
          res = takeWhile isspace rest
      in if length res < length rest then Some (res, length res) else None)"

text \<open>\<^verbatim>\<open>%d\<close> of a non-negative int, and \<^verbatim>\<open>%3d\<close>, padded with spaces on the left.\<close>

definition digit_char :: "nat \<Rightarrow> char" where
  "digit_char d = char_of (48 + d)"

fun show_nat :: "nat \<Rightarrow> string" where
  "show_nat n = (if n < 10 then [digit_char n] else show_nat (n div 10) @ [digit_char (n mod 10)])"

declare show_nat.simps [simp del]

definition fmt_3d :: "nat \<Rightarrow> string" where
  "fmt_3d n = replicate (3 - length (show_nat n)) (CHR 0x20) @ show_nat n"

text \<open>\<^verbatim>\<open>printf("line %3d: ...\n",linenr,...)\<close>: one line of output, with its newline.\<close>

definition line_msg :: "nat \<Rightarrow> string \<Rightarrow> string" where
  "line_msg l txt = ''line '' @ fmt_3d l @ '': '' @ txt @ [newline]"

section \<open>What the file uses and does not define\<close>

text \<open>
  \<^verbatim>\<open>main\<close> calls \<^verbatim>\<open>equal(f1,f2)\<close> and reads \<^verbatim>\<open>ignore_ws\<close>, \<^verbatim>\<open>abs_prec\<close> and
  \<^verbatim>\<open>rel_prec\<close>; none of them is declared in the file. The conversions of floating-point
  text (\<^verbatim>\<open>%Lf\<close> of sscanf, \<^verbatim>\<open>strtold\<close>, \<^verbatim>\<open>%8LG\<close>, \<^verbatim>\<open>%-8LG\<close> and \<^verbatim>\<open>%9.5LE\<close> of printf)
  belong to the C library. All of them are parameters of the model, and so is
  \<open>round_ld\<close>, the rounding of the long double arithmetic. A printf conversion of a
  number prints digits, a sign, a point, an exponent, the letters of an infinity or a
  NaN and padding spaces, and never a newline: \<open>number_text\<close> is what reaches standard
  output of the text a parameter gives.
  \<open>parse_Lf\<close> is the \<^verbatim>\<open>%Lf\<close> conversion on a string that is not blank: the value of the
  longest prefix that is a number, if there is one. \<open>strtold_ext\<close> gives the value and
  the number of characters consumed.
\<close>

record ext =
  equal_ext :: "flt \<Rightarrow> flt \<Rightarrow> bool"
  ignore_ws :: bool
  abs_prec :: flt
  rel_prec :: flt
  parse_Lf :: "string \<Rightarrow> flt option"
  strtold_ext :: "string \<Rightarrow> flt \<times> nat"
  fmt_8LG :: "flt \<Rightarrow> string"
  fmt_m8LG :: "flt \<Rightarrow> string"
  fmt_95LE :: "flt \<Rightarrow> string"
  round_ld :: "real \<Rightarrow> real option"

definition number_text :: "string \<Rightarrow> string" where
  "number_text t = filter (\<lambda>c. c \<noteq> newline) t"

text \<open>
  \<^verbatim>\<open>sscanf(str,"%Lf",&f)\<close>: EOF (-1) on a blank string, 0 when no number starts the
  string, 1 and the value otherwise.
\<close>

definition sscanf_Lf :: "ext \<Rightarrow> string \<Rightarrow> int \<times> flt option" where
  "sscanf_Lf E str =
     (if dropWhile isspace str = [] then (- 1, None)
      else case parse_Lf E str of None \<Rightarrow> (0, None) | Some v \<Rightarrow> (1, Some v))"

section \<open>The variables of main\<close>

text \<open>
  The globals \<^verbatim>\<open>alpha\<close>, \<^verbatim>\<open>probability\<close>, \<^verbatim>\<open>show_help\<close>, \<^verbatim>\<open>show_version\<close> and the
  locals of \<^verbatim>\<open>main\<close>. \<open>line1\<close> and \<open>line2\<close> are the whole arrays; \<open>str1\<close> and \<open>str2\<close> are
  only ever read from their start, so they hold the C string. \<open>f1\<close> and \<open>f2\<close> are the
  undeclared variables sscanf stores into. \<open>out\<close> is standard output, one element per
  record printed, each with the newline that ends it; the text on standard output is
  their concatenation. The counters are C ints that only count up from zero; they are natural
  numbers here (an overflow needs more than \<open>2^31\<close> lines).
\<close>

record state =
  alpha :: flt
  probability :: flt
  show_help :: bool
  show_version :: bool
  linenr :: nat
  tokennr :: nat
  diff :: nat
  wsdiff :: nat
  line1 :: string
  line2 :: string
  str1 :: string
  str2 :: string
  n1 :: nat
  n2 :: nat
  pos1 :: nat
  pos2 :: nat
  f1 :: flt
  f2 :: flt
  out :: "string list"

datatype fault = Out_of_bounds | Null_pointer

definition emit :: "string \<Rightarrow> state \<Rightarrow> state" where
  "emit m s = s\<lparr>out := out s @ [m]\<rparr>"

definition diff_incr :: "state \<Rightarrow> state" where
  "diff_incr s = s\<lparr>diff := Suc (diff s)\<rparr>"

section \<open>The token loop of main\<close>

datatype 'a flow = Break 'a | Next 'a

fun flow_state :: "'a flow \<Rightarrow> 'a" where
  "flow_state (Break s) = s"
| "flow_state (Next s) = s"

text \<open>
  The four sscanf calls at the head of the loop body and the two additions to the
  cursors. \<open>store_tokens\<close> is what they write, given the results of the two \<^verbatim>\<open>%s\<close>
  conversions: a conversion that fails leaves \<^verbatim>\<open>str\<close> and \<^verbatim>\<open>n\<close> as they were, and
  the cursor still moves by the old \<^verbatim>\<open>n\<close>. \<open>scan_tokens\<close> returns \<^verbatim>\<open>read1\<close> and
  \<^verbatim>\<open>read2\<close> with the new state.
\<close>

definition store_tokens :: "state \<Rightarrow> (string \<times> nat) option \<Rightarrow> (string \<times> nat) option \<Rightarrow> state" where
  "store_tokens s r1 r2 =
     (let s1 = (case r1 of None \<Rightarrow> s | Some (t, n) \<Rightarrow> s\<lparr>str1 := t, n1 := n\<rparr>);
          s2 = (case r2 of None \<Rightarrow> s1 | Some (t, n) \<Rightarrow> s1\<lparr>str2 := t, n2 := n\<rparr>)
      in s2\<lparr>pos1 := pos1 s2 + n1 s2, pos2 := pos2 s2 + n2 s2\<rparr>)"

definition sscanf_result :: "'a option \<Rightarrow> int" where
  "sscanf_result r = (case r of None \<Rightarrow> - 1 | Some _ \<Rightarrow> 1)"

definition scan_tokens :: "state \<Rightarrow> fault + (int \<times> int \<times> state)" where
  "scan_tokens s =
     (case cstr_at (line1 s) (pos1 s) of
        None \<Rightarrow> Inl Out_of_bounds
      | Some c1 \<Rightarrow>
         (case cstr_at (line2 s) (pos2 s) of
            None \<Rightarrow> Inl Out_of_bounds
          | Some c2 \<Rightarrow>
              Inr (sscanf_result (sscanf_s c1), sscanf_result (sscanf_s c2),
                   store_tokens s (sscanf_s c1) (sscanf_s c2))))"

text \<open>The line printed for two floats that \<^verbatim>\<open>equal\<close> does not accept.\<close>

definition float_differs_msg :: "ext \<Rightarrow> state \<Rightarrow> string" where
  "float_differs_msg E s =
     line_msg (linenr s)
       (show_nat (tokennr s) @ ''-th float differs: ''
        @ number_text (fmt_8LG E (f1 s)) @ '' != '' @ number_text (fmt_m8LG E (f2 s))
        @ (if isfinite (f1 s) \<and> isfinite (f2 s) then
             (let absdiff = fabsl (fsub (round_ld E) (f1 s) (f2 s));
                  reldiff = fabsl (fdiv (round_ld E) (fsub (round_ld E) (f1 s) (f2 s)) (f2 s))
              in (if flt_greater absdiff (abs_prec E)
                  then ''  absdiff = '' @ number_text (fmt_95LE E absdiff) else [])
                 @ (if flt_greater reldiff (rel_prec E)
                    then ''  reldiff = '' @ number_text (fmt_95LE E reldiff) else []))
           else []))"

text \<open>
  From the two \<^verbatim>\<open>sscanf(str,"%Lf",&f)\<close> calls to the label \<^verbatim>\<open>tokendone\<close>, for tokens
  that differ as strings. \<open>Break\<close> leaves the token loop, \<open>Next\<close> goes on to
  \<^verbatim>\<open>tokendone\<close>.
\<close>

definition compare_floats :: "ext \<Rightarrow> state \<Rightarrow> state flow" where
  "compare_floats E s =
     (let (read1, v1) = sscanf_Lf E (str1 s);
          (read2, v2) = sscanf_Lf E (str2 s);
          s1 = s\<lparr>f1 := (case v1 of None \<Rightarrow> f1 s | Some v \<Rightarrow> v),
                 f2 := (case v2 of None \<Rightarrow> f2 s | Some v \<Rightarrow> v)\<rparr>
      in if read1 = 0 then
           Break (diff_incr (emit (line_msg (linenr s1)
             (''file 1, '' @ show_nat (tokennr s1) @ ''-th entry cannot be parsed as float.'')) s1))
         else if read2 = 0 then
           Break (diff_incr (emit (line_msg (linenr s1)
             (''file 2, '' @ show_nat (tokennr s1) @ ''-th entry cannot be parsed as float.'')) s1))
         else
           (let s2 = (if \<not> (read1 = 1 \<and> read2 = 1) then
                        diff_incr (emit (line_msg (linenr s1)
                          (show_nat (tokennr s1) @ ''-th non-float tokens differ: '' @ [CHR 0x27]
                           @ str1 s1 @ [CHR 0x27] @ '' != '' @ [CHR 0x27] @ str2 s1 @ [CHR 0x27]
                           @ ''.'')) s1)
                      else s1);
                s3 = (if \<not> equal_ext E (f1 s2) (f2 s2) then
                        emit (float_differs_msg E s2) (diff_incr s2)
                      else s2)
            in Next s3))"

text \<open>
  From the label \<^verbatim>\<open>tokendone\<close> to the end of the loop body: the white space after the
  tokens, and the test for the end of both lines. \<open>ws_update\<close> is what the code does with
  the results of the two \<^verbatim>\<open>scanspace\<close> calls. In \<open>tokendone\<close>, \<open>Break\<close> is the
  \<^verbatim>\<open>break\<close> of the last line of the body, \<open>Next\<close> the next iteration.
\<close>

definition ws_update :: "ext \<Rightarrow> state \<Rightarrow> string \<Rightarrow> nat \<Rightarrow> string \<Rightarrow> nat \<Rightarrow> state" where
  "ws_update E s w1 m1 w2 m2 =
     (let s1 = s\<lparr>str1 := w1, str2 := w2, n1 := m1, n2 := m2\<rparr>;
          s2 = (if str1 s1 \<noteq> str2 s1 then
                  (let s' = s1\<lparr>wsdiff := Suc (wsdiff s1)\<rparr>
                   in if \<not> ignore_ws E then
                        emit (line_msg (linenr s')
                          (''whitespace mismatch after '' @ show_nat (tokennr s')
                           @ ''-th token.'')) s'
                      else s')
                else s1)
      in s2\<lparr>pos1 := pos1 s2 + n1 s2, pos2 := pos2 s2 + n2 s2\<rparr>)"

definition tokendone :: "ext \<Rightarrow> state \<Rightarrow> fault + state flow" where
  "tokendone E s =
     (case scanspace (line1 s) (pos1 s) of
        None \<Rightarrow> Inl Out_of_bounds
      | Some (w1, m1) \<Rightarrow>
         (case scanspace (line2 s) (pos2 s) of
            None \<Rightarrow> Inl Out_of_bounds
          | Some (w2, m2) \<Rightarrow>
             (let s3 = ws_update E s w1 m1 w2 m2
              in if line1 s3 ! pos1 s3 = NUL \<and> line2 s3 ! pos2 s3 = NUL
                 then Inr (Break s3) else Inr (Next s3))))"

text \<open>One pass through the body of the inner \<^verbatim>\<open>while ( 1 )\<close>.\<close>

definition token_iter :: "ext \<Rightarrow> state \<Rightarrow> fault + state flow" where
  "token_iter E s =
     (case scan_tokens (s\<lparr>tokennr := Suc (tokennr s)\<rparr>) of
        Inl e \<Rightarrow> Inl e
      | Inr (read1, read2, s1) \<Rightarrow>
          if read1 \<noteq> 1 \<and> read2 = 1 then
            Inr (Break (diff_incr (emit (line_msg (linenr s1)
              (''file 1 misses '' @ show_nat (tokennr s1) @ ''-th token.'')) s1)))
          else if read1 = 1 \<and> read2 \<noteq> 1 then
            Inr (Break (diff_incr (emit (line_msg (linenr s1)
              (''file 1 has excess '' @ show_nat (tokennr s1) @ ''-th token.'')) s1)))
          else if str1 s1 = str2 s1 then tokendone E s1
          else (case compare_floats E s1 of
                  Break s2 \<Rightarrow> Inr (Break s2)
                | Next s2 \<Rightarrow> tokendone E s2))"

subsection \<open>What one pass changes\<close>

text \<open>
  The number of characters a cursor moves by after a \<^verbatim>\<open>%s\<close> conversion: the new
  \<^verbatim>\<open>n\<close>, or the old one when the conversion failed.
\<close>

definition advance :: "(string \<times> nat) option \<Rightarrow> nat \<Rightarrow> nat" where
  "advance r old = (case r of None \<Rightarrow> old | Some (t, n) \<Rightarrow> n)"

lemma emit_sel [simp]:
  "line1 (emit m s) = line1 s" "line2 (emit m s) = line2 s"
  "pos1 (emit m s) = pos1 s" "pos2 (emit m s) = pos2 s"
  "n1 (emit m s) = n1 s" "n2 (emit m s) = n2 s"
  "str1 (emit m s) = str1 s" "str2 (emit m s) = str2 s"
  "f1 (emit m s) = f1 s" "f2 (emit m s) = f2 s"
  "linenr (emit m s) = linenr s" "tokennr (emit m s) = tokennr s"
  "diff (emit m s) = diff s" "wsdiff (emit m s) = wsdiff s"
  "alpha (emit m s) = alpha s" "probability (emit m s) = probability s"
  "show_help (emit m s) = show_help s" "show_version (emit m s) = show_version s"
  "out (emit m s) = out s @ [m]"
  by (simp_all add: emit_def)

lemma diff_incr_sel [simp]:
  "line1 (diff_incr s) = line1 s" "line2 (diff_incr s) = line2 s"
  "pos1 (diff_incr s) = pos1 s" "pos2 (diff_incr s) = pos2 s"
  "n1 (diff_incr s) = n1 s" "n2 (diff_incr s) = n2 s"
  "str1 (diff_incr s) = str1 s" "str2 (diff_incr s) = str2 s"
  "f1 (diff_incr s) = f1 s" "f2 (diff_incr s) = f2 s"
  "linenr (diff_incr s) = linenr s" "tokennr (diff_incr s) = tokennr s"
  "diff (diff_incr s) = Suc (diff s)" "wsdiff (diff_incr s) = wsdiff s"
  "alpha (diff_incr s) = alpha s" "probability (diff_incr s) = probability s"
  "show_help (diff_incr s) = show_help s" "show_version (diff_incr s) = show_version s"
  "out (diff_incr s) = out s"
  by (simp_all add: diff_incr_def)

lemma store_tokens_sel [simp]:
  "line1 (store_tokens s r1 r2) = line1 s" "line2 (store_tokens s r1 r2) = line2 s"
  "f1 (store_tokens s r1 r2) = f1 s" "f2 (store_tokens s r1 r2) = f2 s"
  "linenr (store_tokens s r1 r2) = linenr s" "tokennr (store_tokens s r1 r2) = tokennr s"
  "diff (store_tokens s r1 r2) = diff s" "wsdiff (store_tokens s r1 r2) = wsdiff s"
  "alpha (store_tokens s r1 r2) = alpha s" "probability (store_tokens s r1 r2) = probability s"
  "show_help (store_tokens s r1 r2) = show_help s" "show_version (store_tokens s r1 r2) = show_version s"
  "out (store_tokens s r1 r2) = out s"
  "pos1 (store_tokens s r1 r2) = pos1 s + advance r1 (n1 s)"
  "pos2 (store_tokens s r1 r2) = pos2 s + advance r2 (n2 s)"
  by (simp_all add: store_tokens_def Let_def advance_def split: option.split)


lemma ws_update_sel [simp]:
  "line1 (ws_update E s w1 m1 w2 m2) = line1 s" "line2 (ws_update E s w1 m1 w2 m2) = line2 s"
  "f1 (ws_update E s w1 m1 w2 m2) = f1 s" "f2 (ws_update E s w1 m1 w2 m2) = f2 s"
  "linenr (ws_update E s w1 m1 w2 m2) = linenr s" "tokennr (ws_update E s w1 m1 w2 m2) = tokennr s"
  "diff (ws_update E s w1 m1 w2 m2) = diff s"
  "alpha (ws_update E s w1 m1 w2 m2) = alpha s" "probability (ws_update E s w1 m1 w2 m2) = probability s"
  "show_help (ws_update E s w1 m1 w2 m2) = show_help s" "show_version (ws_update E s w1 m1 w2 m2) = show_version s"
  "pos1 (ws_update E s w1 m1 w2 m2) = pos1 s + m1"
  "pos2 (ws_update E s w1 m1 w2 m2) = pos2 s + m2"
  "n1 (ws_update E s w1 m1 w2 m2) = m1" "n2 (ws_update E s w1 m1 w2 m2) = m2"
  "str1 (ws_update E s w1 m1 w2 m2) = w1" "str2 (ws_update E s w1 m1 w2 m2) = w2"
  by (simp_all add: ws_update_def Let_def)

lemma compare_floats_sel [simp]:
  "line1 (flow_state (compare_floats E s)) = line1 s"
  "line2 (flow_state (compare_floats E s)) = line2 s"
  "pos1 (flow_state (compare_floats E s)) = pos1 s"
  "pos2 (flow_state (compare_floats E s)) = pos2 s"
  "n1 (flow_state (compare_floats E s)) = n1 s"
  "n2 (flow_state (compare_floats E s)) = n2 s"
  "str1 (flow_state (compare_floats E s)) = str1 s"
  "str2 (flow_state (compare_floats E s)) = str2 s"
  "linenr (flow_state (compare_floats E s)) = linenr s"
  "tokennr (flow_state (compare_floats E s)) = tokennr s"
  "wsdiff (flow_state (compare_floats E s)) = wsdiff s"
  "alpha (flow_state (compare_floats E s)) = alpha s"
  "probability (flow_state (compare_floats E s)) = probability s"
  "show_help (flow_state (compare_floats E s)) = show_help s"
  "show_version (flow_state (compare_floats E s)) = show_version s"
  by (simp_all add: compare_floats_def Let_def split_def)

lemma sscanf_s_Some: "sscanf_s c = Some (t, n) \<Longrightarrow> 0 < n \<and> t \<noteq> []"
  by (auto simp: sscanf_s_def Let_def split: if_splits)

lemma scanspace_bound: "scanspace buf p = Some (w, m) \<Longrightarrow> p + m < length buf"
  by (auto simp: scanspace_def Let_def split: if_splits)

lemma sscanf_result_cases: "sscanf_result r = 1 \<and> r \<noteq> None \<or> sscanf_result r = - 1 \<and> r = None"
  by (cases r) (simp_all add: sscanf_result_def)


lemma tokendone_Inr:
  assumes "tokendone E s = Inr r"
  shows "\<exists>w1 m1 w2 m2. scanspace (line1 s) (pos1 s) = Some (w1, m1)
           \<and> scanspace (line2 s) (pos2 s) = Some (w2, m2)
           \<and> flow_state r = ws_update E s w1 m1 w2 m2
           \<and> ((\<exists>x. r = Break x) \<longleftrightarrow>
                line1 s ! (pos1 s + m1) = NUL \<and> line2 s ! (pos2 s + m2) = NUL)"
  using assms
  by (auto simp: tokendone_def Let_def split: option.splits if_splits)

lemma token_iter_Next_tokendone:
  assumes "token_iter E s = Inr (Next s')"
  shows "\<exists>c1 c2 sx. cstr_at (line1 s) (pos1 s) = Some c1 \<and> cstr_at (line2 s) (pos2 s) = Some c2
           \<and> (sscanf_s c1 = None \<longleftrightarrow> sscanf_s c2 = None)
           \<and> tokendone E sx = Inr (Next s')
           \<and> line1 sx = line1 s \<and> line2 sx = line2 s
           \<and> pos1 sx = pos1 s + advance (sscanf_s c1) (n1 s)
           \<and> pos2 sx = pos2 s + advance (sscanf_s c2) (n2 s)"
proof -
  let ?s0 = "s\<lparr>tokennr := Suc (tokennr s)\<rparr>"
  from assms obtain c1 where c1: "cstr_at (line1 s) (pos1 s) = Some c1"
    by (cases "cstr_at (line1 s) (pos1 s)") (auto simp: token_iter_def scan_tokens_def)
  from assms c1 obtain c2 where c2: "cstr_at (line2 s) (pos2 s) = Some c2"
    by (cases "cstr_at (line2 s) (pos2 s)") (auto simp: token_iter_def scan_tokens_def)
  let ?s1 = "store_tokens ?s0 (sscanf_s c1) (sscanf_s c2)"
  have st: "scan_tokens ?s0 = Inr (sscanf_result (sscanf_s c1), sscanf_result (sscanf_s c2), ?s1)"
    by (simp add: scan_tokens_def c1 c2)
  have iff: "sscanf_s c1 = None \<longleftrightarrow> sscanf_s c2 = None"
    using assms sscanf_result_cases[of "sscanf_s c1"] sscanf_result_cases[of "sscanf_s c2"]
    unfolding token_iter_def st by (auto split: if_splits)
  have "\<exists>sx. tokendone E sx = Inr (Next s') \<and> line1 sx = line1 ?s1 \<and> line2 sx = line2 ?s1
            \<and> pos1 sx = pos1 ?s1 \<and> pos2 sx = pos2 ?s1"
  proof (cases "str1 ?s1 = str2 ?s1")
    case True
    then have "tokendone E ?s1 = Inr (Next s')"
      using assms iff sscanf_result_cases[of "sscanf_s c1"] sscanf_result_cases[of "sscanf_s c2"]
      unfolding token_iter_def st by (auto split: if_splits)
    then show ?thesis by blast
  next
    case False
    then have cf: "(case compare_floats E ?s1 of Break s2 \<Rightarrow> Inr (Break s2) | Next s2 \<Rightarrow> tokendone E s2)
                 = Inr (Next s')"
      using assms iff sscanf_result_cases[of "sscanf_s c1"] sscanf_result_cases[of "sscanf_s c2"]
      unfolding token_iter_def st by (auto split: if_splits)
    then obtain s2 where s2: "compare_floats E ?s1 = Next s2" "tokendone E s2 = Inr (Next s')"
      by (cases "compare_floats E ?s1") auto
    have fs: "s2 = flow_state (compare_floats E ?s1)" unfolding s2(1) by simp
    have "line1 s2 = line1 ?s1 \<and> line2 s2 = line2 ?s1 \<and> pos1 s2 = pos1 ?s1 \<and> pos2 s2 = pos2 ?s1"
      unfolding fs by simp
    with s2(2) show ?thesis by blast
  qed
  then show ?thesis using c1 c2 iff by auto
qed


lemma cstr_at_blank:
  assumes "cstr_at buf pos = Some c" "sscanf_s c = None"
  shows "\<exists>w. scanspace buf pos = Some (w, length c) \<and> buf ! (pos + length c) = NUL"
proof -
  let ?rest = "drop pos buf"
  from assms(1) have nul: "NUL \<in> set ?rest" and c: "c = takeWhile (\<lambda>x. x \<noteq> NUL) ?rest"
    by (auto simp: cstr_at_def Let_def split: if_splits)
  from assms(2) have "takeWhile (\<lambda>x. \<not> isspace x) (dropWhile isspace c) = []"
    by (simp add: sscanf_s_def Let_def split: if_splits)
  then have "dropWhile isspace c = []"
    using hd_dropWhile[of isspace c] by (cases "dropWhile isspace c") (auto split: if_splits)
  then have allsp: "\<forall>x\<in>set c. isspace x" by (simp add: dropWhile_eq_Nil_conv)
  have notsp: "\<not> isspace NUL" by (simp add: isspace_def NUL_def)
  have dne: "dropWhile (\<lambda>x. x \<noteq> NUL) ?rest \<noteq> []"
    using nul by (auto simp: dropWhile_eq_Nil_conv)
  then obtain h r where hr: "dropWhile (\<lambda>x. x \<noteq> NUL) ?rest = h # r"
    by (cases "dropWhile (\<lambda>x. x \<noteq> NUL) ?rest") auto
  have "h = NUL" using hd_dropWhile[OF dne] hr by simp
  then have rest: "?rest = c @ NUL # r"
    using takeWhile_dropWhile_id[of "\<lambda>x. x \<noteq> NUL" ?rest] hr c by simp
  have tw: "takeWhile isspace ?rest = c"
    using allsp notsp by (simp add: rest takeWhile_append2)
  have len: "length ?rest = length c + Suc (length r)" by (simp add: rest)
  have "scanspace buf pos = Some (c, length c)"
    using len by (simp add: scanspace_def Let_def tw)
  moreover have "buf ! (pos + length c) = NUL"
  proof -
    have "?rest ! length c = NUL" by (simp add: rest)
    moreover have "pos + length c < length buf" using len by simp
    ultimately show ?thesis by (simp add: nth_drop)
  qed
  ultimately show ?thesis by blast
qed

lemma token_iter_progress:
  assumes "token_iter E s = Inr (Next s')"
  shows "line1 s' = line1 s \<and> line2 s' = line2 s
         \<and> pos1 s \<le> pos1 s' \<and> pos2 s \<le> pos2 s'
         \<and> pos1 s' < length (line1 s) \<and> pos2 s' < length (line2 s)
         \<and> (pos1 s < pos1 s' \<or> pos2 s < pos2 s')"
proof -
  from token_iter_Next_tokendone[OF assms] obtain c1 c2 sx where
    c1: "cstr_at (line1 s) (pos1 s) = Some c1" and c2: "cstr_at (line2 s) (pos2 s) = Some c2"
    and iff: "sscanf_s c1 = None \<longleftrightarrow> sscanf_s c2 = None"
    and td: "tokendone E sx = Inr (Next s')"
    and l: "line1 sx = line1 s" "line2 sx = line2 s"
    and p1: "pos1 sx = pos1 s + advance (sscanf_s c1) (n1 s)"
    and p2: "pos2 sx = pos2 s + advance (sscanf_s c2) (n2 s)"
    by (elim exE conjE) (rule that, assumption+)
  from tokendone_Inr[OF td] obtain w1 m1 w2 m2 where
    a: "scanspace (line1 sx) (pos1 sx) = Some (w1, m1)"
    and b: "scanspace (line2 sx) (pos2 sx) = Some (w2, m2)"
    and s': "s' = ws_update E sx w1 m1 w2 m2"
    and nb: "\<not> (line1 sx ! (pos1 sx + m1) = NUL \<and> line2 sx ! (pos2 sx + m2) = NUL)"
    by auto
  have basic: "line1 s' = line1 s \<and> line2 s' = line2 s
         \<and> pos1 sx \<le> pos1 s' \<and> pos2 sx \<le> pos2 s'
         \<and> pos1 s' < length (line1 s) \<and> pos2 s' < length (line2 s)"
    using scanspace_bound[OF a] scanspace_bound[OF b] by (simp add: s' l)
  have le: "pos1 s \<le> pos1 sx" "pos2 s \<le> pos2 sx" by (simp_all add: p1 p2)
  have strict: "pos1 s < pos1 s' \<or> pos2 s < pos2 s'"
  proof (cases "sscanf_s c1")
    case (Some r)
    then have "pos1 s < pos1 sx" using sscanf_s_Some[of c1 "fst r" "snd r"] by (simp add: p1 advance_def split_def)
    with basic show ?thesis by linarith
  next
    case None
    with iff have None2: "sscanf_s c2 = None" by simp
    show ?thesis
    proof (cases "n1 s = 0 \<and> n2 s = 0")
      case True
      then have same: "pos1 sx = pos1 s" "pos2 sx = pos2 s" by (simp_all add: p1 p2 None None2 advance_def)
      from cstr_at_blank[OF c1 None] a have "m1 = length c1 \<and> line1 s ! (pos1 s + length c1) = NUL"
        by (auto simp: same l)
      moreover from cstr_at_blank[OF c2 None2] b have "m2 = length c2 \<and> line2 s ! (pos2 s + length c2) = NUL"
        by (auto simp: same l)
      ultimately show ?thesis using nb by (simp add: same l)
    next
      case False
      then have "pos1 s < pos1 sx \<or> pos2 s < pos2 sx" by (auto simp: p1 p2 None None2 advance_def)
      with basic show ?thesis by linarith
    qed
  qed
  from basic le strict show ?thesis by linarith
qed

subsection \<open>The loop\<close>

text \<open>
  The inner \<^verbatim>\<open>while ( 1 )\<close>. Every pass that does not leave the loop moves a cursor
  forward inside its array, so the recursion is well-founded on the room left in the
  two arrays.
\<close>

function token_loop :: "ext \<Rightarrow> state \<Rightarrow> fault + state" where
  "token_loop E s =
     (case token_iter E s of
        Inl e \<Rightarrow> Inl e
      | Inr (Break s') \<Rightarrow> Inr s'
      | Inr (Next s') \<Rightarrow> token_loop E s')"
  by pat_completeness auto
termination
proof (relation "measure (\<lambda>(E, s). length (line1 s) + length (line2 s) - (pos1 s + pos2 s))")
  show "wf (measure (\<lambda>(E, s). length (line1 s) + length (line2 s) - (pos1 s + pos2 s)))" by simp
next
  fix E s x2 x2a
  assume "token_iter E s = Inr x2" "x2 = Next x2a"
  then have "token_iter E s = Inr (Next x2a)" by simp
  from token_iter_progress[OF this]
  show "((E, x2a), (E, s)) \<in> measure (\<lambda>(E, s). length (line1 s) + length (line2 s) - (pos1 s + pos2 s))"
    by auto
qed


declare token_loop.simps [simp del]

text \<open>The same loop with a bound on the number of passes; \<open>None\<close> when the bound is used up.\<close>

fun token_loop_fuel :: "nat \<Rightarrow> ext \<Rightarrow> state \<Rightarrow> (fault + state) option" where
  "token_loop_fuel 0 E s = None"
| "token_loop_fuel (Suc k) E s =
     (case token_iter E s of
        Inl e \<Rightarrow> Some (Inl e)
      | Inr (Break s') \<Rightarrow> Some (Inr s')
      | Inr (Next s') \<Rightarrow> token_loop_fuel k E s')"

section \<open>Reading the two files line by line\<close>

text \<open>
  \<^verbatim>\<open>fgets(line,MAXLINELEN,file)\<close> on what is left of a stream: at most
  \<open>MAXLINELEN - 1\<close> characters, up to and including the first newline. The result is
  the characters stored and the rest of the stream, \<open>None\<close> for a NULL return at the
  end of the stream.
\<close>

definition fgets :: "string \<Rightarrow> (string \<times> string) option" where
  "fgets file =
     (if file = [] then None
      else (let l = takeWhile (\<lambda>c. c \<noteq> newline) file;
                chunk = (if length l < MAXLINELEN - 1 \<and> length l < length file
                         then l @ [newline] else take (MAXLINELEN - 1) l)
            in Some (chunk, drop (length chunk) file)))"

lemma fgets_shorter: "fgets file = Some (l, rest) \<Longrightarrow> length rest < length file"
  by (cases "file") (auto simp: fgets_def Let_def MAXLINELEN_def split: if_splits)

text \<open>All the lines fgets returns from a stream, in order.\<close>

function read_lines :: "string \<Rightarrow> string list" where
  "read_lines file = (case fgets file of None \<Rightarrow> [] | Some (l, rest) \<Rightarrow> l # read_lines rest)"
  by pat_completeness auto
termination
  by (relation "measure length") (auto dest: fgets_shorter)

declare read_lines.simps [simp del]

text \<open>fgets writes the line and a terminator at the start of the array; the rest of the array stays.\<close>

definition store_line :: "string \<Rightarrow> string \<Rightarrow> string" where
  "store_line buf l = l @ NUL # drop (Suc (length l)) buf"

text \<open>
  One pair of lines, from the comment \<^verbatim>\<open>Check leading whitespace\<close> to the end of the
  token loop.
\<close>

definition compare_line :: "ext \<Rightarrow> state \<Rightarrow> fault + state" where
  "compare_line E s =
     (case scanspace (line1 s) 0 of
        None \<Rightarrow> Inl Out_of_bounds
      | Some (w1, m1) \<Rightarrow>
         (case scanspace (line2 s) 0 of
            None \<Rightarrow> Inl Out_of_bounds
          | Some (w2, m2) \<Rightarrow>
              token_loop E (s\<lparr>str1 := w1, str2 := w2, n1 := m1, n2 := m2,
                               tokennr := 0, pos1 := m1, pos2 := m2\<rparr>)))"

text \<open>
  The outer \<^verbatim>\<open>while ( 1 )\<close>, on the lines that are left in the two files. A \<^verbatim>\<open>break\<close> of
  the token loop leaves only that loop: the next pair of lines is read after it.
\<close>

fun compare_loop :: "ext \<Rightarrow> state \<Rightarrow> string list \<Rightarrow> string list \<Rightarrow> fault + state" where
  "compare_loop E s [] [] = Inr (s\<lparr>linenr := Suc (linenr s)\<rparr>)"
| "compare_loop E s [] (l2 # ls2) =
     Inr (diff_incr (emit (line_msg (Suc (linenr s)) ''file 1 ended before 2.'')
            (s\<lparr>linenr := Suc (linenr s), line2 := store_line (line2 s) l2\<rparr>)))"
| "compare_loop E s (l1 # ls1) [] =
     Inr (diff_incr (emit (line_msg (Suc (linenr s)) ''file 2 ended before 1.'')
            (s\<lparr>linenr := Suc (linenr s), line1 := store_line (line1 s) l1\<rparr>)))"
| "compare_loop E s (l1 # ls1) (l2 # ls2) =
     (case compare_line E (s\<lparr>linenr := Suc (linenr s),
                               line1 := store_line (line1 s) l1,
                               line2 := store_line (line2 s) l2\<rparr>) of
        Inl e \<Rightarrow> Inl e
      | Inr s' \<Rightarrow> compare_loop E s' ls1 ls2)"

section \<open>main\<close>

definition default_alpha :: flt where
  "default_alpha = Finite (5 / 100)"

definition default_probability :: flt where
  "default_probability = Finite (95 / 100)"

text \<open>
  What one call of \<^verbatim>\<open>getopt_long(argc,argv,"a:p",long_opts,0)\<close> gives back: a long
  option of the table with a flag pointer (the call stores 1 in the flag and returns 0),
  or a character with the value of \<^verbatim>\<open>optarg\<close> (\<open>None\<close> when it is NULL).
\<close>

datatype getopt_result = Long_help | Long_version | Opt char "string option"

text \<open>
  The command line and the files: the results of the getopt loop up to the -1, the
  arguments from \<^verbatim>\<open>argv[optind]\<close> on, what \<^verbatim>\<open>fopen(name,"r")\<close> gives (the contents, or
  \<open>None\<close> when it fails) and the contents of standard input.
\<close>

record env =
  getopt_results :: "getopt_result list"
  operands :: "string list"
  fopen_r :: "string \<Rightarrow> string option"
  stdin_r :: string

text \<open>
  How a run ends: \<^verbatim>\<open>usage()\<close> (which calls \<^verbatim>\<open>exit(0)\<close>), \<^verbatim>\<open>version()\<close>,
  \<^verbatim>\<open>error()\<close>, the \<^verbatim>\<open>return 0\<close> at the end of main with the final state, or a fault.
\<close>

datatype outcome = Exit_usage | Exit_version | Failed string | Return state | Crash fault

text \<open>
  Modelled from the spec: \<^verbatim>\<open>error()\<close> is declared in lib.error.h, which is not part of
  the source. The spec has errors "reported to the user and the program terminates
  immediately", with a non-zero exit status. A message is the text of the call; the
  two messages of the getopt loop are kept without the character they name.
\<close>

definition error :: "string \<Rightarrow> outcome" where
  "error msg = Failed msg"

text \<open>
  Modelled from the spec: \<^verbatim>\<open>version()\<close> is declared in lib.misc.h, which is not part of
  the source. The spec has \<^verbatim>\<open>--version\<close> "print version and exit with status 0".
\<close>

definition version :: outcome where
  "version = Exit_version"

datatype status = Zero | Nonzero

fun exit_status :: "outcome \<Rightarrow> status option" where
  "exit_status Exit_usage = Some Zero"
| "exit_status Exit_version = Some Zero"
| "exit_status (Failed _) = Some Nonzero"
| "exit_status (Return _) = Some Zero"
| "exit_status (Crash _) = None"

text \<open>
  \<^verbatim>\<open>x = strtold(optarg,&ptr); if ( *ptr!=0 || ptr==(char *)&optarg ) error(...)\<close>.
  \<^verbatim>\<open>ptr\<close> ends up inside the argument string or at its terminator, so \<^verbatim>\<open>*ptr!=0\<close>
  says that characters are left over. The second test compares \<^verbatim>\<open>ptr\<close> with the
  address of the variable \<^verbatim>\<open>optarg\<close>, not with the string it points to: two different
  objects, never equal. The result is the value to store, or the end of the run.
\<close>

definition parse_value :: "ext \<Rightarrow> string option \<Rightarrow> string \<Rightarrow> outcome + flt" where
  "parse_value E optarg msg =
     (case optarg of
        None \<Rightarrow> Inl (Crash Null_pointer)
      | Some v \<Rightarrow>
          (let (x, k) = strtold_ext E v
           in if k < length v \<or> False then Inl (error msg) else Inr x))"

text \<open>The body of the getopt loop: the \<^verbatim>\<open>switch ( opt )\<close>.\<close>

definition parse_option :: "ext \<Rightarrow> state \<Rightarrow> getopt_result \<Rightarrow> outcome + state" where
  "parse_option E s r =
     (case r of
        Long_help \<Rightarrow> Inr (s\<lparr>show_help := True\<rparr>)
      | Long_version \<Rightarrow> Inr (s\<lparr>show_version := True\<rparr>)
      | Opt c optarg \<Rightarrow>
          if c = NUL then Inr s
          else if c = CHR ''a'' then
            (case parse_value E optarg ''incorrect significance level alpha specified'' of
               Inl e \<Rightarrow> Inl e | Inr x \<Rightarrow> Inr (s\<lparr>alpha := x\<rparr>))
          else if c = CHR ''p'' then
            (case parse_value E optarg ''incorrect probability specified'' of
               Inl e \<Rightarrow> Inl e | Inr x \<Rightarrow> Inr (s\<lparr>probability := x\<rparr>))
          else if c = CHR '':'' \<or> c = CHR ''?'' then
            Inl (error ''unknown option or missing argument'')
          else Inl (error ''getopt returned character code ??''))"

fun parse_options :: "ext \<Rightarrow> state \<Rightarrow> getopt_result list \<Rightarrow> outcome + state" where
  "parse_options E s [] = Inr s"
| "parse_options E s (r # rs) =
     (case parse_option E s r of Inl e \<Rightarrow> Inl e | Inr s' \<Rightarrow> parse_options E s' rs)"

text \<open>\<^verbatim>\<open>fopen\<close> of a file argument, or standard input for \<^verbatim>\<open>-\<close>.\<close>

definition open_file :: "env \<Rightarrow> string \<Rightarrow> string option" where
  "open_file V name = (if name = ''-'' then Some (stdin_r V) else fopen_r V name)"

definition found_msg :: "state \<Rightarrow> string" where
  "found_msg s = ''Found '' @ show_nat (diff s) @ '' differences in ''
                 @ show_nat (linenr s - 1) @ '' lines'' @ [newline]"

text \<open>
  \<^verbatim>\<open>main\<close>. \<open>s0\<close> holds what the variables contain before main assigns them: the
  arrays and the locals have no initialiser. \<open>startup\<close> is the four assignments
  before the getopt loop; standard output starts empty.
\<close>

definition startup :: "state \<Rightarrow> state" where
  "startup s0 = s0\<lparr>alpha := default_alpha, probability := default_probability,
                    show_help := False, show_version := False, out := []\<rparr>"

definition main :: "ext \<Rightarrow> env \<Rightarrow> state \<Rightarrow> outcome" where
  "main E V s0 =
     (case parse_options E (startup s0) (getopt_results V) of
        Inl e \<Rightarrow> e
      | Inr s1 \<Rightarrow>
          if show_help s1 then Exit_usage
          else if show_version s1 then version
          else if length (operands V) < 3 then error ''not enough arguments given''
          else
            (let file1name = operands V ! 1;
                 file2name = operands V ! 2
             in if file1name = ''-'' \<and> file2name = ''-'' then
                  error ''both files specified as standard input''
                else
                  (case open_file V file1name of
                     None \<Rightarrow> error (''cannot open '' @ [CHR 0x27] @ file1name @ [CHR 0x27])
                   | Some file1 \<Rightarrow>
                      (case open_file V file2name of
                         None \<Rightarrow> error (''cannot open '' @ [CHR 0x27] @ file2name @ [CHR 0x27])
                       | Some file2 \<Rightarrow>
                          (case compare_loop E (s1\<lparr>linenr := 0, diff := 0, wsdiff := 0\<rparr>)
                                  (read_lines file1) (read_lines file2) of
                             Inl f \<Rightarrow> Crash f
                           | Inr s2 \<Rightarrow>
                               Return (if 0 < diff s2 then emit (found_msg s2) s2 else s2))))))"

section \<open>Notions the properties are stated with\<close>

text \<open>
  The lines of a text, without their newlines; what follows the last newline is a line
  too when it is not empty.
\<close>

fun split_lines :: "string \<Rightarrow> string \<Rightarrow> string list" where
  "split_lines acc [] = (if acc = [] then [] else [acc])"
| "split_lines acc (c # cs) =
     (if c = newline then acc # split_lines [] cs else split_lines (acc @ [c]) cs)"

definition text_lines :: "string \<Rightarrow> string list" where
  "text_lines t = split_lines [] t"

text \<open>A line of the form \<^verbatim>\<open>line <N>: <description>\<close>.\<close>

definition is_diagnostic_line :: "string \<Rightarrow> bool" where
  "is_diagnostic_line l =
     (newline \<notin> set l \<and> (\<exists>n d. l = ''line '' @ fmt_3d n @ '': '' @ d))"

text \<open>
  The record for two tokens that differ and of which one is no number at all; it quotes
  the strings \<^verbatim>\<open>str1\<close> and \<^verbatim>\<open>str2\<close>.
\<close>

definition is_nonfloat_record :: "string \<Rightarrow> bool" where
  "is_nonfloat_record r =
     (\<exists>n k a b. r = line_msg n (show_nat k @ ''-th non-float tokens differ: '' @ [CHR 0x27]
                     @ a @ [CHR 0x27] @ '' != '' @ [CHR 0x27] @ b @ [CHR 0x27] @ ''.''))"

text \<open>
  A record on standard output begins with a line of the form
  \<^verbatim>\<open>line <N>: <description>\<close>, and it is that one line unless it is the record for
  non-float tokens, whose quoted strings may hold newlines.
\<close>

definition diagnostic_record :: "string \<Rightarrow> bool" where
  "diagnostic_record r =
     (\<exists>l ls. text_lines r = l # ls \<and> is_diagnostic_line l
         \<and> (ls = [] \<or> is_nonfloat_record r))"

text \<open>The summary line, without its newline.\<close>

definition summary_line :: "state \<Rightarrow> string" where
  "summary_line s = ''Found '' @ show_nat (diff s) @ '' differences in ''
                    @ show_nat (linenr s - 1) @ '' lines''"

text \<open>
  \<open>diagnostics_ok\<close> relates standard output to the counters: one record for each
  difference counted in \<^verbatim>\<open>diff\<close>, one more for each white-space mismatch counted in
  \<^verbatim>\<open>wsdiff\<close> unless \<^verbatim>\<open>ignore_ws\<close> is set. \<open>is_record\<close> is the shape the program gives a
  record: the text of a \<^verbatim>\<open>printf("line %3d: ...\n", ...)\<close> with no newline before the
  last character, or the record for non-float tokens.
\<close>

definition is_record :: "string \<Rightarrow> bool" where
  "is_record m = (\<exists>n t. m = line_msg n t \<and> (newline \<notin> set t \<or> is_nonfloat_record m))"

definition diagnostics_ok :: "ext \<Rightarrow> state \<Rightarrow> bool" where
  "diagnostics_ok E s =
     (length (out s) = diff s + (if ignore_ws E then 0 else wsdiff s)
      \<and> (\<forall>m\<in>set (out s). is_record m))"

text \<open>What a run has printed on standard output when main returns.\<close>

fun stdout_of :: "outcome \<Rightarrow> string list option" where
  "stdout_of (Return s) = Some (out s)"
| "stdout_of _ = None"

text \<open>
  The two records for files of different length, and how many of them standard output
  holds.
\<close>

definition is_length_mismatch :: "string \<Rightarrow> bool" where
  "is_length_mismatch m =
     (\<exists>n. m = line_msg n ''file 1 ended before 2.'' \<or> m = line_msg n ''file 2 ended before 1.'')"

definition mismatch_count :: "state \<Rightarrow> nat" where
  "mismatch_count s = length (filter is_length_mismatch (out s))"

text \<open>
  The acceptance rule in the words of the specification, for comparison with
  \<open>should_accept\<close>: with \<open>k\<close> successes among \<open>n\<close> cases, null-hypothesis proportion
  \<open>p0\<close> and normal quantile \<open>z\<close>, the corrected statistic is
  \<open>(k/n - p0 + 1/(2n)) / sqrt (p0 (1 - p0) / n)\<close>, and the verdict is accept iff it is at
  least \<open>- z\<close>.
\<close>

definition spec_z_obs :: "real \<Rightarrow> real \<Rightarrow> real \<Rightarrow> real" where
  "spec_z_obs k n p0 = (k / n - p0 + 1 / (2 * n)) / sqrt (p0 * (1 - p0) / n)"

definition spec_accept :: "real \<Rightarrow> real \<Rightarrow> real \<Rightarrow> real \<Rightarrow> bool" where
  "spec_accept z k n p0 = (- z \<le> spec_z_obs k n p0)"

text \<open>
  The messages of the \<^verbatim>\<open>error()\<close> calls for a bad command line: the four of the getopt
  loop, the argument count, and both files given as standard input.
\<close>

definition usage_errors :: "string list" where
  "usage_errors =
     [''incorrect significance level alpha specified'',
      ''incorrect probability specified'',
      ''unknown option or missing argument'',
      ''getopt returned character code ??'',
      ''not enough arguments given'',
      ''both files specified as standard input'']"

text \<open>The options \<^verbatim>\<open>-a\<close>/\<^verbatim>\<open>--alpha\<close> and \<^verbatim>\<open>-p\<close>/\<^verbatim>\<open>--probability\<close>.\<close>

fun parameter_option :: "getopt_result \<Rightarrow> bool" where
  "parameter_option (Opt c optarg) = (c = CHR ''a'' \<or> c = CHR ''p'')"
| "parameter_option _ = False"

text \<open>
  The arguments were parsed and both files were opened: the getopt loop ended without
  an error, neither \<^verbatim>\<open>--help\<close> nor \<^verbatim>\<open>--version\<close> was given, there are three arguments,
  not both files are \<^verbatim>\<open>-\<close>, and both can be opened.
\<close>

definition opened :: "ext \<Rightarrow> env \<Rightarrow> state \<Rightarrow> bool" where
  "opened E V s0 =
     (case parse_options E (startup s0) (getopt_results V) of
        Inl e \<Rightarrow> False
      | Inr s1 \<Rightarrow>
          \<not> show_help s1 \<and> \<not> show_version s1 \<and> 3 \<le> length (operands V)
          \<and> \<not> (operands V ! 1 = ''-'' \<and> operands V ! 2 = ''-'')
          \<and> open_file V (operands V ! 1) \<noteq> None \<and> open_file V (operands V ! 2) \<noteq> None)"

fun is_Return :: "outcome \<Rightarrow> bool" where
  "is_Return (Return s) = True"
| "is_Return _ = False"

section \<open>Sample inputs\<close>

text \<open>
  Concrete values for the parameters, to run the model on. \<open>ex_parse\<close> reads an
  unsigned decimal number, digits with an optional fraction, which is all the samples
  need; it gives the value and the number of characters read. \<open>equal_ext\<close> is the
  body of \<open>should_accept\<close> with both tolerances \<open>1e-7\<close>; the three printf conversions
  of a floating-point value print \<^verbatim>\<open>#\<close>. The sample rounding \<open>Some\<close> keeps every
  result as it is, as a format with enough precision for the sample values does.
  \<open>ex_state\<close> has zero-filled arrays, and \<open>ex_env sub ref\<close> is the command line
  \<^verbatim>\<open>x sub ref\<close> with the two files' contents.
\<close>

definition is_digit :: "char \<Rightarrow> bool" where
  "is_digit c = ((48::nat) \<le> of_char c \<and> of_char c \<le> (57::nat))"

definition digits_value :: "string \<Rightarrow> nat" where
  "digits_value ds = foldl (\<lambda>a c. 10 * a + (of_char c - (48::nat))) 0 ds"

definition ex_parse :: "string \<Rightarrow> (flt \<times> nat) option" where
  "ex_parse s =
     (let ip = takeWhile is_digit s;
          r = drop (length ip) s
      in if ip = [] then None
         else (case r of
                 c # r' \<Rightarrow>
                   if c = CHR ''.'' then
                     (let fp = takeWhile is_digit r'
                      in Some (Finite (real (digits_value ip)
                                       + real (digits_value fp) / 10 ^ length fp),
                               length ip + 1 + length fp))
                   else Some (Finite (real (digits_value ip)), length ip)
               | [] \<Rightarrow> Some (Finite (real (digits_value ip)), length ip)))"

definition ex_ext :: ext where
  "ex_ext = \<lparr>equal_ext = (\<lambda>a b. should_accept Some a b (Finite (1 / 10 ^ 7))
                                    (Finite (1 / 10 ^ 7)) a b),
             ignore_ws = False,
             abs_prec = Finite (1 / 10 ^ 7), rel_prec = Finite (1 / 10 ^ 7),
             parse_Lf = (\<lambda>s. map_option fst (ex_parse s)),
             strtold_ext = (\<lambda>s. case ex_parse s of None \<Rightarrow> (Finite 0, 0) | Some r \<Rightarrow> r),
             fmt_8LG = (\<lambda>_. ''#''), fmt_m8LG = (\<lambda>_. ''#''), fmt_95LE = (\<lambda>_. ''#''),
             round_ld = Some\<rparr>"

definition ex_state :: state where
  "ex_state = \<lparr>alpha = NaN, probability = NaN, show_help = False, show_version = False,
         linenr = 0, tokennr = 0, diff = 0, wsdiff = 0,
         line1 = replicate MAXLINELEN NUL, line2 = replicate MAXLINELEN NUL,
         str1 = [], str2 = [], n1 = 0, n2 = 0, pos1 = 0, pos2 = 0, f1 = NaN, f2 = NaN, out = []\<rparr>"

definition ex_env :: "getopt_result list \<Rightarrow> string \<Rightarrow> string \<Rightarrow> env" where
  "ex_env opts sub ref =
     \<lparr>getopt_results = opts, operands = [''x'', ''sub'', ''ref''],
      fopen_r = (\<lambda>n. if n = ''sub'' then Some sub else if n = ''ref'' then Some ref else None),
      stdin_r = []\<rparr>"

text \<open>The state at the head of the token loop for the pair of lines \<^verbatim>\<open>a b\<close>, and after one pass.\<close>

definition ex_line_state :: state where
  "ex_line_state = ex_state\<lparr>linenr := 1,
     line1 := store_line (line1 ex_state) (''a b'' @ [newline]),
     line2 := store_line (line2 ex_state) (''a b'' @ [newline])\<rparr>"

definition ex_next_state :: state where
  "ex_next_state = ex_line_state\<lparr>tokennr := 1, str1 := '' '', str2 := '' '',
     n1 := 1, n2 := 1, pos1 := 2, pos2 := 2\<rparr>"

text \<open>
  Files: \<open>interval_sub\<close> and \<open>interval_ref\<close> are one case in the format of the header
  comment, the value \<^verbatim>\<open>1.00\<close> against the interval \<^verbatim>\<open>0.90 1.10\<close>; \<open>ex_same\<close> compares a
  file with itself; \<open>ex_differ\<close> and \<open>ex_differ2\<close> compare \<^verbatim>\<open>abc\<close> with \<^verbatim>\<open>abd\<close>, the
  first with \<^verbatim>\<open>--help --version\<close>; \<open>ex_both_stdin\<close> is the command line \<^verbatim>\<open>x - -\<close>;
  \<open>ex_blank\<close> compares a line that holds a space with an empty line;
  \<open>ex_lines1\<close> and \<open>ex_lines2\<close> are the lines of a file and of one with a line more.
\<close>

definition interval_sub :: string where "interval_sub = ''1.00'' @ [newline]"
definition interval_ref :: string where "interval_ref = ''0.90 1.10'' @ [newline]"

definition ex_same :: env where
  "ex_same = ex_env [] (''1.00'' @ [newline]) (''1.00'' @ [newline])"

definition ex_differ :: env where
  "ex_differ = ex_env [Long_help, Long_version] (''abc'' @ [newline]) (''abd'' @ [newline])"

definition ex_differ2 :: env where
  "ex_differ2 = ex_env [] (''abc'' @ [newline]) (''abd'' @ [newline])"

definition ex_both_stdin :: env where
  "ex_both_stdin = \<lparr>getopt_results = [], operands = [''x'', ''-'', ''-''],
                     fopen_r = (\<lambda>n. None), stdin_r = []\<rparr>"

definition ex_blank :: env where
  "ex_blank = ex_env [] ('' '' @ [newline]) [newline]"

definition ex_lines1 :: "string list" where
  "ex_lines1 = [''1'' @ [newline]]"

definition ex_lines2 :: "string list" where
  "ex_lines2 = [''1'' @ [newline], ''2'' @ [newline]]"

section \<open>Lemmas\<close>

subsection \<open>The bounded loop agrees with the loop\<close>

lemma token_loop_fuel_enough:
  "length (line1 s) + length (line2 s) - (pos1 s + pos2 s) < k
   \<Longrightarrow> token_loop_fuel k E s = Some (token_loop E s)"
proof (induction k arbitrary: s)
  case 0
  then show ?case by simp
next
  case (Suc k)
  show ?case
  proof (cases "token_iter E s")
    case (Inl e)
    then show ?thesis by (simp add: token_loop.simps)
  next
    case (Inr r)
    show ?thesis
    proof (cases r)
      case (Break s')
      with Inr show ?thesis by (simp add: token_loop.simps)
    next
      case (Next s')
      with Inr have ti: "token_iter E s = Inr (Next s')" by simp
      from token_iter_progress[OF ti] Suc.prems
      have "length (line1 s') + length (line2 s') - (pos1 s' + pos2 s') < k" by auto
      from Suc.IH[OF this] ti show ?thesis by (simp add: token_loop.simps[of E s])
    qed
  qed
qed

subsection \<open>Diagnostics and counters\<close>

lemma newline_eq: "(newline = c) = (of_char c = (10::nat))"
proof
  assume "newline = c"
  then have "c = CHR 0x0A" by (simp add: newline_def)
  then show "of_char c = (10::nat)" by simp
next
  assume "of_char c = (10::nat)"
  then have "of_char c = (of_char newline :: nat)" by (simp add: newline_def)
  then show "newline = c" by simp
qed

lemma digit_char_no_newline: "d < 10 \<Longrightarrow> digit_char d \<noteq> newline"
proof
  assume d: "d < 10" and e: "digit_char d = newline"
  from d have "of_char (digit_char d) = (48 + d :: nat)" by (simp add: digit_char_def)
  moreover from e have "(of_char (digit_char d) :: nat) = 10" by (simp add: newline_def)
  ultimately show False by simp
qed

lemma show_nat_no_newline [simp]: "newline \<notin> set (show_nat n)"
proof (induction n rule: show_nat.induct)
  case (1 n)
  show ?case
  proof (cases "n < 10")
    case True
    then show ?thesis using digit_char_no_newline[of n] by (simp add: show_nat.simps[of n])
  next
    case False
    with 1 have "newline \<notin> set (show_nat (n div 10))" by simp
    moreover have "digit_char (n mod 10) \<noteq> newline" by (rule digit_char_no_newline) simp
    ultimately show ?thesis using False by (simp add: show_nat.simps[of n])
  qed
qed

lemma fmt_3d_no_newline [simp]: "newline \<notin> set (fmt_3d n)"
  by (simp add: fmt_3d_def newline_eq)

lemma number_text_no_newline [simp]: "newline \<notin> set (number_text t)"
  by (simp add: number_text_def)

lemma is_record_line_msg: "newline \<notin> set t \<Longrightarrow> is_record (line_msg n t)"
  by (auto simp: is_record_def)

lemma is_record_nonfloat:
  "is_record (line_msg n (show_nat k @ ''-th non-float tokens differ: '' @ [CHR 0x27]
     @ a @ [CHR 0x27] @ '' != '' @ [CHR 0x27] @ b @ [CHR 0x27] @ ''.''))"
  unfolding is_record_def is_nonfloat_record_def by blast

lemmas is_record_simps = is_record_line_msg is_record_nonfloat [simplified] newline_eq

lemma is_record_float [simp]: "is_record (float_differs_msg E s)"
  unfolding float_differs_msg_def
  by (rule is_record_line_msg) (simp add: Let_def newline_eq)

lemma store_tokens_ok [simp]:
  "diagnostics_ok E (store_tokens s r1 r2) = diagnostics_ok E s"
  by (simp add: diagnostics_ok_def)

lemma diag_emit_incr [simp]:
  "is_record m \<Longrightarrow> diagnostics_ok E (diff_incr (emit m s)) = diagnostics_ok E s"
  "is_record m \<Longrightarrow> diagnostics_ok E (emit m (diff_incr s)) = diagnostics_ok E s"
  by (auto simp: diagnostics_ok_def)

lemma compare_floats_ok:
  "diagnostics_ok E s \<Longrightarrow> diagnostics_ok E (flow_state (compare_floats E s))"
proof -
  assume ok: "diagnostics_ok E s"
  have upd: "\<And>a b. diagnostics_ok E (s\<lparr>f1 := a, f2 := b\<rparr>)"
    using ok by (simp add: diagnostics_ok_def)
  show ?thesis
    by (simp add: compare_floats_def Let_def split_def upd is_record_simps)
qed

lemma ws_update_ok:
  "diagnostics_ok E s \<Longrightarrow> diagnostics_ok E (ws_update E s w1 m1 w2 m2)"
  by (auto simp: ws_update_def Let_def diagnostics_ok_def emit_def is_record_simps)

lemma token_iter_unfold:
  assumes "cstr_at (line1 s) (pos1 s) = Some c1" "cstr_at (line2 s) (pos2 s) = Some c2"
  shows "token_iter E s =
     (let s1 = store_tokens (s\<lparr>tokennr := Suc (tokennr s)\<rparr>) (sscanf_s c1) (sscanf_s c2)
      in if sscanf_s c1 = None \<and> sscanf_s c2 \<noteq> None then
            Inr (Break (diff_incr (emit (line_msg (linenr s1)
              (''file 1 misses '' @ show_nat (tokennr s1) @ ''-th token.'')) s1)))
          else if sscanf_s c1 \<noteq> None \<and> sscanf_s c2 = None then
            Inr (Break (diff_incr (emit (line_msg (linenr s1)
              (''file 1 has excess '' @ show_nat (tokennr s1) @ ''-th token.'')) s1)))
          else if str1 s1 = str2 s1 then tokendone E s1
          else (case compare_floats E s1 of
                  Break s2 \<Rightarrow> Inr (Break s2)
                | Next s2 \<Rightarrow> tokendone E s2))"
  by (cases "sscanf_s c1"; cases "sscanf_s c2")
     (simp_all add: token_iter_def scan_tokens_def assms sscanf_result_def)

lemma token_iter_Inr_cases:
  assumes "token_iter E s = Inr r"
  obtains c1 c2 sx where
    "cstr_at (line1 s) (pos1 s) = Some c1" "cstr_at (line2 s) (pos2 s) = Some c2"
    "sx = store_tokens (s\<lparr>tokennr := Suc (tokennr s)\<rparr>) (sscanf_s c1) (sscanf_s c2)"
    "(\<exists>txt. newline \<notin> set txt \<and> r = Break (diff_incr (emit (line_msg (linenr sx) txt) sx)))
     \<or> tokendone E sx = Inr r
     \<or> (\<exists>s2. compare_floats E sx = Break s2 \<and> r = Break s2)
     \<or> (\<exists>s2. compare_floats E sx = Next s2 \<and> tokendone E s2 = Inr r)"
proof -
  from assms obtain c1 where c1: "cstr_at (line1 s) (pos1 s) = Some c1"
    by (cases "cstr_at (line1 s) (pos1 s)") (auto simp: token_iter_def scan_tokens_def)
  from assms c1 obtain c2 where c2: "cstr_at (line2 s) (pos2 s) = Some c2"
    by (cases "cstr_at (line2 s) (pos2 s)") (auto simp: token_iter_def scan_tokens_def)
  define sx where "sx = store_tokens (s\<lparr>tokennr := Suc (tokennr s)\<rparr>) (sscanf_s c1) (sscanf_s c2)"
  note eq = token_iter_unfold[OF c1 c2, of E, unfolded Let_def, folded sx_def]
  have "(\<exists>txt. newline \<notin> set txt \<and> r = Break (diff_incr (emit (line_msg (linenr sx) txt) sx)))
     \<or> tokendone E sx = Inr r
     \<or> (\<exists>s2. compare_floats E sx = Break s2 \<and> r = Break s2)
     \<or> (\<exists>s2. compare_floats E sx = Next s2 \<and> tokendone E s2 = Inr r)"
  proof (cases "sscanf_s c1 = None \<and> sscanf_s c2 \<noteq> None")
    case True
    with assms eq have "r = Break (diff_incr (emit (line_msg (linenr sx)
              (''file 1 misses '' @ show_nat (tokennr sx) @ ''-th token.'')) sx))" by auto
    moreover have "newline \<notin> set (''file 1 misses '' @ show_nat (tokennr sx) @ ''-th token.'')"
      by (simp add: newline_eq)
    ultimately show ?thesis by blast
  next
    case n1: False
    show ?thesis
    proof (cases "sscanf_s c1 \<noteq> None \<and> sscanf_s c2 = None")
      case True
      with assms eq n1 have "r = Break (diff_incr (emit (line_msg (linenr sx)
              (''file 1 has excess '' @ show_nat (tokennr sx) @ ''-th token.'')) sx))" by auto
      moreover have "newline \<notin> set (''file 1 has excess '' @ show_nat (tokennr sx) @ ''-th token.'')"
        by (simp add: newline_eq)
      ultimately show ?thesis by blast
    next
      case n2: False
      show ?thesis
      proof (cases "str1 sx = str2 sx")
        case True
        with assms eq n1 n2 have "tokendone E sx = Inr r" by auto
        then show ?thesis by simp
      next
        case n3: False
        with assms eq n1 n2 have
          cf: "(case compare_floats E sx of Break s2 \<Rightarrow> Inr (Break s2) | Next s2 \<Rightarrow> tokendone E s2) = Inr r"
          by auto
        show ?thesis
        proof (cases "compare_floats E sx")
          case (Break s2)
          with cf show ?thesis by auto
        next
          case (Next s2)
          with cf show ?thesis by auto
        qed
      qed
    qed
  qed
  with c1 c2 sx_def show ?thesis using that by blast
qed

subsection \<open>What the loops leave unchanged\<close>

lemma token_iter_preserves:
  assumes "token_iter E s = Inr r"
  shows "linenr (flow_state r) = linenr s \<and> alpha (flow_state r) = alpha s
         \<and> probability (flow_state r) = probability s
         \<and> (diagnostics_ok E s \<longrightarrow> diagnostics_ok E (flow_state r))"
proof -
  from assms obtain c1 c2 sx where
    sx: "sx = store_tokens (s\<lparr>tokennr := Suc (tokennr s)\<rparr>) (sscanf_s c1) (sscanf_s c2)"
    and cs: "(\<exists>txt. newline \<notin> set txt \<and> r = Break (diff_incr (emit (line_msg (linenr sx) txt) sx)))
     \<or> tokendone E sx = Inr r
     \<or> (\<exists>s2. compare_floats E sx = Break s2 \<and> r = Break s2)
     \<or> (\<exists>s2. compare_floats E sx = Next s2 \<and> tokendone E s2 = Inr r)"
    by (rule token_iter_Inr_cases)
  have sxf: "linenr sx = linenr s \<and> alpha sx = alpha s \<and> probability sx = probability s
             \<and> (diagnostics_ok E s \<longrightarrow> diagnostics_ok E sx)"
    by (simp add: sx) (simp add: diagnostics_ok_def)
  have td: "\<And>t. tokendone E t = Inr r \<Longrightarrow>
       linenr (flow_state r) = linenr t \<and> alpha (flow_state r) = alpha t
       \<and> probability (flow_state r) = probability t
       \<and> (diagnostics_ok E t \<longrightarrow> diagnostics_ok E (flow_state r))"
  proof -
    fix t assume "tokendone E t = Inr r"
    from tokendone_Inr[OF this] obtain w1 m1 w2 m2 where
      "flow_state r = ws_update E t w1 m1 w2 m2" by auto
    then show "linenr (flow_state r) = linenr t \<and> alpha (flow_state r) = alpha t
       \<and> probability (flow_state r) = probability t
       \<and> (diagnostics_ok E t \<longrightarrow> diagnostics_ok E (flow_state r))"
      by (simp add: ws_update_ok)
  qed
  have cf: "\<And>s2. compare_floats E sx = Break s2 \<or> compare_floats E sx = Next s2 \<Longrightarrow>
       linenr s2 = linenr sx \<and> alpha s2 = alpha sx \<and> probability s2 = probability sx
       \<and> (diagnostics_ok E sx \<longrightarrow> diagnostics_ok E s2)"
  proof -
    fix s2 assume "compare_floats E sx = Break s2 \<or> compare_floats E sx = Next s2"
    then have fs: "s2 = flow_state (compare_floats E sx)" by auto
    show "linenr s2 = linenr sx \<and> alpha s2 = alpha sx \<and> probability s2 = probability sx
       \<and> (diagnostics_ok E sx \<longrightarrow> diagnostics_ok E s2)"
      unfolding fs by (simp add: compare_floats_ok)
  qed
  from cs show ?thesis
  proof (elim disjE exE conjE)
    fix tx assume "newline \<notin> set tx" "r = Break (diff_incr (emit (line_msg (linenr sx) tx) sx))"
    then show ?thesis using sxf by (simp add: is_record_line_msg)
  next
    assume "tokendone E sx = Inr r"
    from td[OF this] sxf show ?thesis by simp
  next
    fix s2 assume a: "compare_floats E sx = Break s2" "r = Break s2"
    from cf[of s2] a sxf show ?thesis by simp
  next
    fix s2 assume a: "compare_floats E sx = Next s2" "tokendone E s2 = Inr r"
    from cf[of s2] a(1) td[OF a(2)] sxf show ?thesis by simp
  qed
qed

lemma token_loop_preserves:
  "token_loop E s = Inr s' \<Longrightarrow>
   (\<And>s r. token_iter E s = Inr r \<Longrightarrow> P s \<Longrightarrow> P (flow_state r)) \<Longrightarrow> P s \<Longrightarrow> P s'"
proof (induction E s rule: token_loop.induct)
  case (1 E s)
  note step = "1.prems"(2)
  show ?case
  proof (cases "token_iter E s")
    case (Inl e)
    with "1.prems"(1) show ?thesis by (simp add: token_loop.simps)
  next
    case (Inr r)
    from step[OF Inr "1.prems"(3)] have Pr: "P (flow_state r)" .
    show ?thesis
    proof (cases r)
      case (Break t)
      with Inr "1.prems"(1) Pr show ?thesis by (simp add: token_loop.simps)
    next
      case (Next t)
      with Inr "1.prems"(1) have tl: "token_loop E t = Inr s'" by (simp add: token_loop.simps)
      from Pr Next have "P t" by simp
      from "1.IH"[OF Inr Next tl step this] show ?thesis .
    qed
  qed
qed

lemma compare_line_preserves:
  assumes "compare_line E s = Inr s'"
  shows "linenr s' = linenr s \<and> alpha s' = alpha s \<and> probability s' = probability s
         \<and> (diagnostics_ok E s \<longrightarrow> diagnostics_ok E s')"
proof -
  from assms obtain w1 m1 w2 m2 where
    tl: "token_loop E (s\<lparr>str1 := w1, str2 := w2, n1 := m1, n2 := m2,
                          tokennr := 0, pos1 := m1, pos2 := m2\<rparr>) = Inr s'"
    by (auto simp: compare_line_def split: option.splits)
  let ?t = "s\<lparr>str1 := w1, str2 := w2, n1 := m1, n2 := m2, tokennr := 0, pos1 := m1, pos2 := m2\<rparr>"
  let ?P = "\<lambda>u. linenr u = linenr s \<and> alpha u = alpha s \<and> probability u = probability s
         \<and> (diagnostics_ok E s \<longrightarrow> diagnostics_ok E u)"
  have "?P s'"
  proof (rule token_loop_preserves[OF tl, where P = ?P])
    fix u r assume "token_iter E u = Inr r" "?P u"
    with token_iter_preserves[of E u r] show "?P (flow_state r)" by simp
  next
    show "?P ?t" by (simp add: diagnostics_ok_def)
  qed
  then show ?thesis .
qed

lemma compare_loop_preserves:
  "compare_loop E s ls1 ls2 = Inr s' \<Longrightarrow>
   linenr s' = linenr s + min (length ls1) (length ls2) + 1
   \<and> alpha s' = alpha s \<and> probability s' = probability s
   \<and> (diagnostics_ok E s \<longrightarrow> diagnostics_ok E s')"
proof (induction E s ls1 ls2 rule: compare_loop.induct)
  case (1 E s)
  then show ?case by (auto simp: diagnostics_ok_def)
next
  case (2 E s l2 ls2)
  then show ?case by (auto simp: diagnostics_ok_def emit_def diff_incr_def is_record_simps)
next
  case (3 E s l1 ls1)
  then show ?case by (auto simp: diagnostics_ok_def emit_def diff_incr_def is_record_simps)
next
  case (4 E s l1 ls1 l2 ls2)
  let ?t = "s\<lparr>linenr := Suc (linenr s), line1 := store_line (line1 s) l1,
              line2 := store_line (line2 s) l2\<rparr>"
  from "4.prems" obtain u where cl: "compare_line E ?t = Inr u"
    and rest: "compare_loop E u ls1 ls2 = Inr s'"
    by (cases "compare_line E ?t") auto
  from compare_line_preserves[OF cl]
  have u: "linenr u = Suc (linenr s) \<and> alpha u = alpha s \<and> probability u = probability s
           \<and> (diagnostics_ok E s \<longrightarrow> diagnostics_ok E u)"
    by (simp add: diagnostics_ok_def)
  from "4.IH"[OF cl rest] u show ?case by simp
qed


subsection \<open>Finite values in should_accept\<close>

lemma not_greater_is_le:
  "\<not> isnan x \<Longrightarrow> \<not> isnan p \<Longrightarrow> (\<not> flt_greater x p) = flt_le x p"
  by (simp add: flt_greater_def flt_le_def)

lemma rounded_not_nan: "\<not> isnan (rounded rnd x)"
  by (simp add: rounded_def split: option.split)

lemma fsub_finite_not_nan: "\<not> isnan (fsub rnd (Finite x) (Finite y))"
  by (simp add: rounded_not_nan)

lemma fabsl_nan: "isnan (fabsl v) = isnan v"
  by (cases v) simp_all

lemma fdiv_nan:
  "\<not> isnan d \<Longrightarrow> isnan (fdiv rnd d (Finite y)) \<Longrightarrow> d = Finite 0"
  by (cases d) (auto simp: rounded_not_nan split: if_splits)

lemma should_accept_finite:
  assumes "flt_le (Finite 0) pa" and "\<not> isnan pr"
  shows "should_accept rnd (Finite x) (Finite y) pa pr k n
         = (flt_le (fabsl (fsub rnd (Finite x) (Finite y))) pa
            \<or> flt_le (fabsl (fdiv rnd (fsub rnd (Finite x) (Finite y)) (Finite y))) pr)"
proof -
  define d where "d = fsub rnd (Finite x) (Finite y)"
  have dn: "\<not> isnan d" unfolding d_def by (rule fsub_finite_not_nan)
  have pan: "\<not> isnan pa" using assms(1) by (simp add: flt_le_def)
  have an: "\<not> isnan (fabsl d)" using dn by (simp add: fabsl_nan)
  have sa: "should_accept rnd (Finite x) (Finite y) pa pr k n
            = (\<not> flt_greater (fabsl d) pa \<or> \<not> flt_greater (fabsl (fdiv rnd d (Finite y))) pr)"
    by (auto simp: should_accept_def Let_def d_def)
  show ?thesis
  proof (cases "isnan (fdiv rnd d (Finite y))")
    case True
    from fdiv_nan[OF dn True] have "fabsl d = Finite 0" by simp
    with assms(1) have "flt_le (fabsl d) pa" by simp
    moreover from this an pan have "\<not> flt_greater (fabsl d) pa"
      by (simp add: not_greater_is_le)
    ultimately show ?thesis unfolding sa d_def[symmetric] by simp
  next
    case False
    then have "\<not> isnan (fabsl (fdiv rnd d (Finite y)))" by (simp add: fabsl_nan)
    with an pan assms(2) show ?thesis
      unfolding sa d_def[symmetric] by (simp add: not_greater_is_le)
  qed
qed

text \<open>
  What the rounding does to the comparison: a difference too large for the format is an
  infinity, and two values whose difference rounds to within the absolute tolerance are
  accepted, whatever the exact difference is.
\<close>

lemma fsub_overflow:
  "rnd (a - b) = None \<Longrightarrow> b < a \<Longrightarrow> fsub rnd (Finite a) (Finite b) = PInf"
  by (simp add: rounded_def)

lemma should_accept_rounded:
  "rnd (a - b) = Some d \<Longrightarrow> a \<noteq> b \<Longrightarrow> \<bar>d\<bar> \<le> pa
   \<Longrightarrow> should_accept rnd (Finite a) (Finite b) (Finite pa) pr k n"
  by (simp add: should_accept_def rounded_def flt_greater_def Let_def)

subsection \<open>The token loop on the line with an interval\<close>

lemma compare_floats_diff:
  "diff s \<le> diff (flow_state (compare_floats E s))"
  "compare_floats E s = Break s2 \<Longrightarrow> diff s2 = Suc (diff s)"
proof -
  show "diff s \<le> diff (flow_state (compare_floats E s))"
    by (simp add: compare_floats_def Let_def split_def)
  assume "compare_floats E s = Break s2"
  then show "diff s2 = Suc (diff s)"
    by (simp add: compare_floats_def Let_def split_def split: if_splits) auto
qed

lemma str_store_tokens:
  "str1 (store_tokens s (Some (t1, k1)) r2) = t1"
  "str2 (store_tokens s r1 (Some (t2, k2))) = t2"
  by (simp_all add: store_tokens_def Let_def split: option.split)

lemma tokendone_eval:
  assumes "scanspace (line1 s) (pos1 s) = Some (w1, m1)"
      and "scanspace (line2 s) (pos2 s) = Some (w2, m2)"
  shows "tokendone E s =
           Inr ((if line1 s ! (pos1 s + m1) = NUL \<and> line2 s ! (pos2 s + m2) = NUL
                 then Break else Next) (ws_update E s w1 m1 w2 m2))"
  by (simp add: tokendone_def assms Let_def)

lemma interval_line_token_loop:
  assumes l1: "line1 u = store_line b1 (''1.00'' @ [newline])"
      and l2: "line2 u = store_line b2 (''0.90 1.10'' @ [newline])"
      and p: "pos1 u = 0" "pos2 u = 0"
  shows "\<exists>s'. token_loop E u = Inr s' \<and> diff u < diff s'"
proof -
  have c1: "cstr_at (line1 u) (pos1 u) = Some (''1.00'' @ [newline])"
    by (simp add: l1 p cstr_at_def store_line_def NUL_def newline_def)
  have c2: "cstr_at (line2 u) (pos2 u) = Some (''0.90 1.10'' @ [newline])"
    by (simp add: l2 p cstr_at_def store_line_def NUL_def newline_def)
  have t1: "sscanf_s (''1.00'' @ [newline]) = Some (''1.00'', 4)"
    by (simp add: sscanf_s_def isspace_def newline_def)
  have t2: "sscanf_s (''0.90 1.10'' @ [newline]) = Some (''0.90'', 4)"
    by (simp add: sscanf_s_def isspace_def newline_def)
  define sx where "sx = store_tokens (u\<lparr>tokennr := Suc (tokennr u)\<rparr>) (Some (''1.00'', 4)) (Some (''0.90'', 4))"
  have sx: "line1 sx = line1 u" "line2 sx = line2 u" "pos1 sx = 4" "pos2 sx = 4" "diff sx = diff u"
    "str1 sx = ''1.00''" "str2 sx = ''0.90''"
    by (simp_all add: sx_def p advance_def str_store_tokens)
  have it1: "token_iter E u = (case compare_floats E sx of
                  Break s2 \<Rightarrow> Inr (Break s2)
                | Next s2 \<Rightarrow> tokendone E s2)"
    unfolding token_iter_unfold[OF c1 c2] t1 t2 Let_def sx_def[symmetric]
    by (simp add: sx)
  show ?thesis
  proof (cases "compare_floats E sx")
    case (Break s2)
    then have "token_loop E u = Inr s2" by (simp add: token_loop.simps[of E u] it1)
    moreover from compare_floats_diff(2)[OF Break] have "diff u < diff s2" by (simp add: sx)
    ultimately show ?thesis by blast
  next
    case (Next s2)
    have fs: "s2 = flow_state (compare_floats E sx)" by (simp add: Next)
    have s2: "line1 s2 = line1 u" "line2 s2 = line2 u" "pos1 s2 = 4" "pos2 s2 = 4"
      unfolding fs by (simp_all add: sx)
    have d2: "diff u \<le> diff s2"
      using compare_floats_diff(1)[of sx E] by (simp add: fs[symmetric] sx)
    have w1: "scanspace (line1 s2) (pos1 s2) = Some ([newline], Suc 0)"
      by (simp add: s2 l1 scanspace_def store_line_def NUL_def newline_def isspace_def)
    have w2: "scanspace (line2 s2) (pos2 s2) = Some ('' '', Suc 0)"
      by (simp add: s2 l2 scanspace_def store_line_def NUL_def newline_def isspace_def)
    define s3 where "s3 = ws_update E s2 [newline] (Suc 0) '' '' (Suc 0)"
    have s3: "line1 s3 = line1 u" "line2 s3 = line2 u" "pos1 s3 = 5" "pos2 s3 = 5" "diff s3 = diff s2"
      by (simp_all add: s3_def s2)
    have nn: "line2 u ! 5 \<noteq> NUL"
      by (simp add: l2 store_line_def NUL_def newline_def)
    have td: "tokendone E s2 = Inr (Next s3)"
      by (simp add: tokendone_eval[OF w1 w2] s2 nn s3_def)
    have it1': "token_iter E u = Inr (Next s3)" by (simp add: it1 Next td)
    have c1': "cstr_at (line1 s3) (pos1 s3) = Some []"
      by (simp add: s3 l1 cstr_at_def store_line_def NUL_def newline_def)
    have c2': "cstr_at (line2 s3) (pos2 s3) = Some (''1.10'' @ [newline])"
      by (simp add: s3 l2 cstr_at_def store_line_def NUL_def newline_def)
    have t1': "sscanf_s [] = None" by (simp add: sscanf_s_def)
    have t2': "sscanf_s (''1.10'' @ [newline]) = Some (''1.10'', 4)"
      by (simp add: sscanf_s_def isspace_def newline_def)
    define sy where "sy = store_tokens (s3\<lparr>tokennr := Suc (tokennr s3)\<rparr>) None (Some (''1.10'', 4))"
    have it2: "token_iter E s3 = Inr (Break (diff_incr (emit (line_msg (linenr sy)
              (''file 1 misses '' @ show_nat (tokennr sy) @ ''-th token.'')) sy)))"
      unfolding token_iter_unfold[OF c1' c2'] t1' t2' Let_def sy_def[symmetric] by simp
    have "token_loop E u = Inr (diff_incr (emit (line_msg (linenr sy)
              (''file 1 misses '' @ show_nat (tokennr sy) @ ''-th token.'')) sy))"
      by (simp add: token_loop.simps[of E u] it1' token_loop.simps[of E s3] it2)
    moreover have "diff u < diff (diff_incr (emit (line_msg (linenr sy)
              (''file 1 misses '' @ show_nat (tokennr sy) @ ''-th token.'')) sy))"
      using d2 by (simp add: sy_def s3)
    ultimately show ?thesis by blast
  qed
qed

subsection \<open>Option parsing and the ways out of main\<close>

lemma startup_sel:
  "show_help (startup s0) = False" "show_version (startup s0) = False"
  "alpha (startup s0) = default_alpha" "probability (startup s0) = default_probability"
  "out (startup s0) = []"
  by (simp_all add: startup_def)

lemma scanspace_start:
  "\<not> isspace c \<Longrightarrow> scanspace (store_line b (c # l)) 0 = Some ([], 0)"
  by (simp add: scanspace_def store_line_def)

lemma parse_value_Inl:
  "parse_value E optarg msg = Inl e \<Longrightarrow> e = Crash Null_pointer \<or> e = Failed msg"
  by (auto simp: parse_value_def error_def split_def Let_def split: option.splits if_splits)

lemma parse_option_Inl:
  assumes "parse_option E s r = Inl e"
  shows "e = Crash Null_pointer \<or> (\<exists>msg\<in>set usage_errors. e = Failed msg)"
proof (cases r)
  case Long_help
  with assms show ?thesis by (simp add: parse_option_def)
next
  case Long_version
  with assms show ?thesis by (simp add: parse_option_def)
next
  case (Opt c optarg)
  with assms show ?thesis
    by (auto simp: parse_option_def error_def usage_errors_def
             split: if_splits sum.splits dest!: parse_value_Inl)
qed

lemma parse_option_Inr:
  assumes "parse_option E s r = Inr s'"
  shows "out s' = out s
         \<and> (\<not> parameter_option r \<longrightarrow> alpha s' = alpha s \<and> probability s' = probability s)"
proof (cases r)
  case Long_help
  with assms show ?thesis by (auto simp: parse_option_def)
next
  case Long_version
  with assms show ?thesis by (auto simp: parse_option_def)
next
  case (Opt c optarg)
  with assms show ?thesis
    by (auto simp: parse_option_def split: if_splits sum.splits)
qed

lemma parse_options_Inl:
  "parse_options E s rs = Inl e \<Longrightarrow>
   e = Crash Null_pointer \<or> (\<exists>msg\<in>set usage_errors. e = Failed msg)"
proof (induction rs arbitrary: s)
  case Nil
  then show ?case by simp
next
  case (Cons r rs)
  show ?case
  proof (cases "parse_option E s r")
    case (Inl e')
    with Cons.prems have "e' = e" by simp
    with parse_option_Inl[OF Inl] show ?thesis by simp
  next
    case (Inr s')
    with Cons.prems have "parse_options E s' rs = Inl e" by simp
    from Cons.IH[OF this] show ?thesis .
  qed
qed

lemma parse_options_Inr:
  "parse_options E s rs = Inr s' \<Longrightarrow>
   out s' = out s
   \<and> (\<not> list_ex parameter_option rs \<longrightarrow> alpha s' = alpha s \<and> probability s' = probability s)"
proof (induction rs arbitrary: s)
  case Nil
  then show ?case by simp
next
  case (Cons r rs)
  from Cons.prems obtain t where t: "parse_option E s r = Inr t" "parse_options E t rs = Inr s'"
    by (cases "parse_option E s r") auto
  from parse_option_Inr[OF t(1)] Cons.IH[OF t(2)] show ?case by auto
qed

lemma main_unfold:
  assumes "parse_options E (startup s0) (getopt_results V) = Inr s1"
      and "\<not> show_help s1" "\<not> show_version s1" "3 \<le> length (operands V)"
      and "\<not> (operands V ! 1 = ''-'' \<and> operands V ! 2 = ''-'')"
      and "open_file V (operands V ! 1) = Some file1"
      and "open_file V (operands V ! 2) = Some file2"
  shows "main E V s0 =
     (case compare_loop E (s1\<lparr>linenr := 0, diff := 0, wsdiff := 0\<rparr>)
             (read_lines file1) (read_lines file2) of
        Inl f \<Rightarrow> Crash f
      | Inr s2 \<Rightarrow> Return (if 0 < diff s2 then emit (found_msg s2) s2 else s2))"
  using assms by (cases "operands V ! 1 = ''-''"; simp add: main_def Let_def)

lemma main_reaches_compare:
  assumes "main E V s0 = Return s \<or> main E V s0 = Crash Out_of_bounds"
  obtains s1 file1 file2 where
    "parse_options E (startup s0) (getopt_results V) = Inr s1"
    "\<not> show_help s1" "\<not> show_version s1" "3 \<le> length (operands V)"
    "\<not> (operands V ! 1 = ''-'' \<and> operands V ! 2 = ''-'')"
    "open_file V (operands V ! 1) = Some file1"
    "open_file V (operands V ! 2) = Some file2"
proof -
  obtain s1 where p: "parse_options E (startup s0) (getopt_results V) = Inr s1"
  proof (cases "parse_options E (startup s0) (getopt_results V)")
    case (Inl e)
    then have "main E V s0 = e" by (simp add: main_def)
    with parse_options_Inl[OF Inl] assms show ?thesis by auto
  next
    case (Inr s1)
    then show ?thesis by (rule that)
  qed
  have h: "\<not> show_help s1"
  proof
    assume "show_help s1"
    then have "main E V s0 = Exit_usage" by (simp add: main_def p)
    with assms show False by simp
  qed
  have v: "\<not> show_version s1"
  proof
    assume "show_version s1"
    then have "main E V s0 = Exit_version" by (simp add: main_def p h version_def)
    with assms show False by simp
  qed
  have n: "3 \<le> length (operands V)"
  proof (rule ccontr)
    assume "\<not> 3 \<le> length (operands V)"
    then have "main E V s0 = Failed ''not enough arguments given''"
      by (simp add: main_def p h v error_def)
    with assms show False by simp
  qed
  have b: "\<not> (operands V ! 1 = ''-'' \<and> operands V ! 2 = ''-'')"
  proof
    assume "operands V ! 1 = ''-'' \<and> operands V ! 2 = ''-''"
    then have "main E V s0 = Failed ''both files specified as standard input''"
      using n by (simp add: main_def p h v error_def Let_def)
    with assms show False by simp
  qed
  obtain file1 where o1: "open_file V (operands V ! 1) = Some file1"
  proof (cases "open_file V (operands V ! 1)")
    case None
    then have "\<exists>m. main E V s0 = Failed m"
      using n b by (cases "operands V ! 1 = ''-''"; simp add: main_def p h v error_def Let_def)
    with assms show ?thesis by auto
  next
    case (Some f)
    then show ?thesis by (rule that)
  qed
  obtain file2 where o2: "open_file V (operands V ! 2) = Some file2"
  proof (cases "open_file V (operands V ! 2)")
    case None
    then have "\<exists>m. main E V s0 = Failed m"
      using n b o1 by (cases "operands V ! 1 = ''-''"; simp add: main_def p h v error_def Let_def)
    with assms show ?thesis by auto
  next
    case (Some f)
    then show ?thesis by (rule that)
  qed
  from p h v n b o1 o2 show ?thesis by (rule that)
qed

lemma main_Failed:
  assumes "main E V s0 = Failed msg"
  shows "msg \<in> set usage_errors
         \<or> (\<exists>name. open_file V name = None \<and> msg = ''cannot open '' @ [CHR 0x27] @ name @ [CHR 0x27])"
proof (cases "parse_options E (startup s0) (getopt_results V)")
  case (Inl e)
  with assms have "e = Failed msg" by (simp add: main_def)
  with parse_options_Inl[OF Inl] show ?thesis by auto
next
  case p: (Inr s1)
  show ?thesis
  proof (cases "show_help s1 \<or> show_version s1")
    case True
    then have "main E V s0 = Exit_usage \<or> main E V s0 = Exit_version"
      by (auto simp: main_def p version_def)
    with assms show ?thesis by auto
  next
    case hv: False
    show ?thesis
    proof (cases "3 \<le> length (operands V)")
      case False
      with hv have "main E V s0 = Failed ''not enough arguments given''"
        by (simp add: main_def p error_def)
      with assms show ?thesis by (simp add: usage_errors_def)
    next
      case n: True
      show ?thesis
      proof (cases "operands V ! 1 = ''-'' \<and> operands V ! 2 = ''-''")
        case True
        with hv n have "main E V s0 = Failed ''both files specified as standard input''"
          by (simp add: main_def p error_def Let_def)
        with assms show ?thesis by (simp add: usage_errors_def)
      next
        case b: False
        show ?thesis
        proof (cases "open_file V (operands V ! 1)")
          case None
          with hv n b have "main E V s0 = Failed (''cannot open '' @ [CHR 0x27] @ operands V ! 1 @ [CHR 0x27])"
            by (cases "operands V ! 1 = ''-''"; simp add: main_def p error_def Let_def)
          with assms None show ?thesis by auto
        next
          case o1: (Some file1)
          show ?thesis
          proof (cases "open_file V (operands V ! 2)")
            case None
            with hv n b o1 have "main E V s0 = Failed (''cannot open '' @ [CHR 0x27] @ operands V ! 2 @ [CHR 0x27])"
              by (cases "operands V ! 1 = ''-''"; simp add: main_def p error_def Let_def)
            with assms None show ?thesis by auto
          next
            case o2: (Some file2)
            from hv have "\<not> show_help s1" "\<not> show_version s1" by simp_all
            from main_unfold[OF p this n b o1 o2] assms show ?thesis
              by (simp split: sum.splits)
          qed
        qed
      qed
    qed
  qed
qed

subsection \<open>Records for files of different length\<close>

lemma digit_char_neq: "d < 10 \<Longrightarrow> digit_char d \<noteq> CHR '':'' \<and> digit_char d \<noteq> CHR ''f'' \<and> digit_char d \<noteq> CHR ''w''"
proof -
  assume d: "d < 10"
  then have v: "of_char (digit_char d) = (48 + d :: nat)" by (simp add: digit_char_def)
  show ?thesis
  proof (intro conjI notI)
    assume "digit_char d = CHR '':''"
    then have "(of_char (digit_char d) :: nat) = 58" by simp
    with v d show False by simp
  next
    assume "digit_char d = CHR ''f''"
    then have "(of_char (digit_char d) :: nat) = 102" by simp
    with v d show False by simp
  next
    assume "digit_char d = CHR ''w''"
    then have "(of_char (digit_char d) :: nat) = 119" by simp
    with v d show False by simp
  qed
qed

lemma show_nat_chars:
  "show_nat n \<noteq> [] \<and> (\<forall>c\<in>set (show_nat n). c \<noteq> CHR '':'' \<and> c \<noteq> CHR ''f'' \<and> c \<noteq> CHR ''w'')"
proof (induction n rule: show_nat.induct)
  case (1 n)
  show ?case
  proof (cases "n < 10")
    case True
    then show ?thesis using digit_char_neq[of n] by (simp add: show_nat.simps[of n])
  next
    case False
    with 1 have IH: "show_nat (n div 10) \<noteq> [] \<and>
        (\<forall>c\<in>set (show_nat (n div 10)). c \<noteq> CHR '':'' \<and> c \<noteq> CHR ''f'' \<and> c \<noteq> CHR ''w'')" by simp
    have "n mod 10 < 10" by simp
    from digit_char_neq[OF this] IH False show ?thesis
      by (simp add: show_nat.simps[of n])
  qed
qed

lemma fmt_3d_no_colon: "CHR '':'' \<notin> set (fmt_3d n)"
  using show_nat_chars[of n] by (auto simp: fmt_3d_def)

lemma split_at_first:
  assumes "xs @ c # ys = xs' @ c # ys'" "c \<notin> set xs" "c \<notin> set xs'"
  shows "xs = xs' \<and> ys = ys'"
proof -
  have tw: "\<And>zs ws. c \<notin> set zs \<Longrightarrow> takeWhile (\<lambda>x. x \<noteq> c) (zs @ c # ws) = zs"
  proof -
    fix zs ws show "c \<notin> set zs \<Longrightarrow> takeWhile (\<lambda>x. x \<noteq> c) (zs @ c # ws) = zs"
      by (induction zs) auto
  qed
  have "takeWhile (\<lambda>x. x \<noteq> c) (xs @ c # ys) = xs" using assms(2) by (rule tw)
  moreover have "takeWhile (\<lambda>x. x \<noteq> c) (xs' @ c # ys') = xs'" using assms(3) by (rule tw)
  ultimately have "xs = xs'" using assms(1) by simp
  with assms(1) show ?thesis by simp
qed

lemma line_msg_inject: "line_msg n t = line_msg n' t' \<Longrightarrow> t = t'"
proof -
  assume "line_msg n t = line_msg n' t'"
  then have "fmt_3d n @ CHR '':'' # (CHR '' '' # t @ [newline]) = fmt_3d n' @ CHR '':'' # (CHR '' '' # t' @ [newline])"
    by (simp add: line_msg_def)
  from split_at_first[OF this fmt_3d_no_colon fmt_3d_no_colon] show "t = t'" by simp
qed

lemma is_length_mismatch_line_msg [simp]:
  "is_length_mismatch (line_msg n t) = (t = ''file 1 ended before 2.'' \<or> t = ''file 2 ended before 1.'')"
  by (auto simp: is_length_mismatch_def dest: line_msg_inject)

lemma show_nat_prefix_neq [simp]:
  "(show_nat k @ t = CHR ''f'' # u) = False"
  using show_nat_chars[of k] by (cases "show_nat k") auto

lemma not_mismatch_float [simp]: "\<not> is_length_mismatch (float_differs_msg E s)"
  by (simp add: float_differs_msg_def)

lemma mismatch_count_simps [simp]:
  "mismatch_count (emit m s) = mismatch_count s + (if is_length_mismatch m then 1 else 0)"
  "mismatch_count (diff_incr s) = mismatch_count s"
  "mismatch_count (store_tokens s r1 r2) = mismatch_count s"
  by (simp_all add: mismatch_count_def)

lemma mismatch_count_compare_floats:
  "mismatch_count (flow_state (compare_floats E s)) = mismatch_count s"
proof -
  have upd: "\<And>a b. mismatch_count (s\<lparr>f1 := a, f2 := b\<rparr>) = mismatch_count s"
    by (simp add: mismatch_count_def)
  show ?thesis by (simp add: compare_floats_def Let_def split_def upd)
qed

lemma out_ws_update:
  "out (ws_update E s w1 m1 w2 m2) =
     out s @ (if w1 \<noteq> w2 \<and> \<not> ignore_ws E
              then [line_msg (linenr s) (''whitespace mismatch after '' @ show_nat (tokennr s)
                                         @ ''-th token.'')]
              else [])"
  by (simp add: ws_update_def Let_def emit_def)

lemma mismatch_count_ws_update:
  "mismatch_count (ws_update E s w1 m1 w2 m2) = mismatch_count s"
  by (simp add: mismatch_count_def out_ws_update)

lemma mismatch_count_token_iter:
  assumes "token_iter E s = Inr r"
  shows "mismatch_count (flow_state r) = mismatch_count s"
proof -
  from assms obtain c1 c2 sx where
    sx: "sx = store_tokens (s\<lparr>tokennr := Suc (tokennr s)\<rparr>) (sscanf_s c1) (sscanf_s c2)"
    and c1: "cstr_at (line1 s) (pos1 s) = Some c1" and c2: "cstr_at (line2 s) (pos2 s) = Some c2"
    by (rule token_iter_Inr_cases)
  have sxc: "mismatch_count sx = mismatch_count s"
    by (simp add: sx) (simp add: mismatch_count_def)
  have td: "\<And>t r'. tokendone E t = Inr r' \<Longrightarrow> mismatch_count (flow_state r') = mismatch_count t"
  proof -
    fix t r' assume "tokendone E t = Inr r'"
    from tokendone_Inr[OF this] obtain w1 m1 w2 m2 where
      "flow_state r' = ws_update E t w1 m1 w2 m2" by auto
    then show "mismatch_count (flow_state r') = mismatch_count t"
      by (simp add: mismatch_count_ws_update)
  qed
  note eq = token_iter_unfold[OF c1 c2, of E, unfolded Let_def, folded sx]
  show ?thesis
  proof (cases "sscanf_s c1 = None \<and> sscanf_s c2 \<noteq> None")
    case True
    with assms eq have "r = Break (diff_incr (emit (line_msg (linenr sx)
              (''file 1 misses '' @ show_nat (tokennr sx) @ ''-th token.'')) sx))" by auto
    then show ?thesis by (simp add: sxc)
  next
    case n1: False
    show ?thesis
    proof (cases "sscanf_s c1 \<noteq> None \<and> sscanf_s c2 = None")
      case True
      with assms eq n1 have "r = Break (diff_incr (emit (line_msg (linenr sx)
              (''file 1 has excess '' @ show_nat (tokennr sx) @ ''-th token.'')) sx))" by auto
      then show ?thesis by (simp add: sxc)
    next
      case n2: False
      show ?thesis
      proof (cases "str1 sx = str2 sx")
        case True
        with assms eq n1 n2 have "tokendone E sx = Inr r" by auto
        from td[OF this] sxc show ?thesis by simp
      next
        case n3: False
        with assms eq n1 n2 have
          cf: "(case compare_floats E sx of Break s2 \<Rightarrow> Inr (Break s2) | Next s2 \<Rightarrow> tokendone E s2) = Inr r"
          by auto
        have cc: "mismatch_count (flow_state (compare_floats E sx)) = mismatch_count s"
          by (simp add: mismatch_count_compare_floats sxc)
        show ?thesis
        proof (cases "compare_floats E sx")
          case (Break s2)
          with cf cc show ?thesis by auto
        next
          case (Next s2)
          with cf have "tokendone E s2 = Inr r" by simp
          from td[OF this] cc Next show ?thesis by simp
        qed
      qed
    qed
  qed
qed

lemma mismatch_count_compare_line:
  assumes "compare_line E s = Inr s'"
  shows "mismatch_count s' = mismatch_count s"
proof -
  from assms obtain w1 m1 w2 m2 where
    tl: "token_loop E (s\<lparr>str1 := w1, str2 := w2, n1 := m1, n2 := m2,
                          tokennr := 0, pos1 := m1, pos2 := m2\<rparr>) = Inr s'"
    by (auto simp: compare_line_def split: option.splits)
  let ?t = "s\<lparr>str1 := w1, str2 := w2, n1 := m1, n2 := m2, tokennr := 0, pos1 := m1, pos2 := m2\<rparr>"
  let ?P = "\<lambda>u. mismatch_count u = mismatch_count s"
  have "?P s'"
  proof (rule token_loop_preserves[OF tl, where P = ?P])
    fix u r assume "token_iter E u = Inr r" "?P u"
    with mismatch_count_token_iter[of E u r] show "?P (flow_state r)" by simp
  next
    show "?P ?t" by (simp add: mismatch_count_def)
  qed
  then show ?thesis .
qed

lemma mismatch_count_compare_loop:
  "compare_loop E s ls1 ls2 = Inr s' \<Longrightarrow>
   mismatch_count s' = mismatch_count s + (if length ls1 = length ls2 then 0 else 1)"
proof (induction E s ls1 ls2 rule: compare_loop.induct)
  case (1 E s)
  then show ?case by (auto simp: mismatch_count_def)
next
  case (2 E s l2 ls2)
  then show ?case by (auto simp: mismatch_count_def emit_def diff_incr_def)
next
  case (3 E s l1 ls1)
  then show ?case by (auto simp: mismatch_count_def emit_def diff_incr_def)
next
  case (4 E s l1 ls1 l2 ls2)
  let ?t = "s\<lparr>linenr := Suc (linenr s), line1 := store_line (line1 s) l1,
              line2 := store_line (line2 s) l2\<rparr>"
  from "4.prems" obtain u where cl: "compare_line E ?t = Inr u"
    and rest: "compare_loop E u ls1 ls2 = Inr s'"
    by (cases "compare_line E ?t") auto
  from mismatch_count_compare_line[OF cl]
  have u: "mismatch_count u = mismatch_count s" by (simp add: mismatch_count_def)
  from "4.IH"[OF cl rest] u show ?case by simp
qed


subsection \<open>The lines of standard output\<close>

lemma split_lines_first:
  "newline \<notin> set l \<Longrightarrow> split_lines acc (l @ newline # rest) = (acc @ l) # split_lines [] rest"
  by (induction l arbitrary: acc) auto

lemma text_lines_first:
  "newline \<notin> set l \<Longrightarrow> text_lines (l @ newline # rest) = l # text_lines rest"
  by (simp add: text_lines_def split_lines_first)

lemma text_lines_line: "newline \<notin> set l \<Longrightarrow> text_lines (l @ [newline]) = [l]"
  by (simp add: text_lines_first) (simp add: text_lines_def)

lemma split_lines_append:
  "split_lines acc (r @ newline # t) = split_lines acc (r @ [newline]) @ split_lines [] t"
  by (induction r arbitrary: acc) auto

lemma text_lines_append:
  "text_lines ((r @ [newline]) @ t) = text_lines (r @ [newline]) @ text_lines t"
  using split_lines_append[of "[]" r t] by (simp add: text_lines_def)

lemma text_lines_concat:
  "\<forall>r\<in>set rs. \<exists>r'. r = r' @ [newline]
   \<Longrightarrow> text_lines (concat rs @ t) = concat (map text_lines rs) @ text_lines t"
proof (induction rs)
  case Nil
  then show ?case by simp
next
  case (Cons r rs)
  then obtain r' where r: "r = r' @ [newline]" by auto
  from Cons have IH: "text_lines (concat rs @ t) = concat (map text_lines rs) @ text_lines t"
    by simp
  have "text_lines (concat (r # rs) @ t) = text_lines ((r' @ [newline]) @ (concat rs @ t))"
    by (simp add: r)
  also have "\<dots> = text_lines (r' @ [newline]) @ text_lines (concat rs @ t)"
    by (rule text_lines_append)
  finally show ?case by (simp add: IH r)
qed

lemma line_msg_lines:
  "\<exists>l ls. text_lines (line_msg n t) = l # ls \<and> is_diagnostic_line l
          \<and> (newline \<notin> set t \<longrightarrow> ls = [])"
proof -
  have "newline \<in> set (t @ [newline])" by simp
  from split_list_first[OF this] obtain x y where
    xy: "t @ [newline] = x @ newline # y" and x: "newline \<notin> set x" by blast
  let ?l = "''line '' @ fmt_3d n @ '': '' @ x"
  have nl: "newline \<notin> set ?l" using x by (simp add: newline_eq)
  have "line_msg n t = ?l @ newline # y"
    using xy by (simp add: line_msg_def)
  then have tl: "text_lines (line_msg n t) = ?l # text_lines y"
    using text_lines_first[OF nl, of y] by simp
  have dl: "is_diagnostic_line ?l"
    unfolding is_diagnostic_line_def using nl by blast
  have "newline \<notin> set t \<longrightarrow> text_lines y = []"
  proof
    assume nt: "newline \<notin> set t"
    have "t @ newline # [] = x @ newline # y" using xy by simp
    from split_at_first[OF this nt x] have "y = []" by simp
    then show "text_lines y = []" by (simp add: text_lines_def)
  qed
  with tl dl show ?thesis by blast
qed

lemma record_lines:
  assumes "is_record r"
  shows "diagnostic_record r" and "\<exists>r'. r = r' @ [newline]"
proof -
  from assms obtain n t where r: "r = line_msg n t"
    and c: "newline \<notin> set t \<or> is_nonfloat_record r"
    unfolding is_record_def by blast
  from line_msg_lines[of n t] obtain l ls where
    l: "text_lines r = l # ls" "is_diagnostic_line l" "newline \<notin> set t \<longrightarrow> ls = []"
    unfolding r by blast
  from c l(3) have "ls = [] \<or> is_nonfloat_record r" by blast
  with l(1,2) show "diagnostic_record r" unfolding diagnostic_record_def by blast
  have "r = (''line '' @ fmt_3d n @ '': '' @ t) @ [newline]"
    by (simp add: r line_msg_def)
  then show "\<exists>r'. r = r' @ [newline]" by blast
qed

lemma found_msg_lines: "text_lines (found_msg s) = [summary_line s]"
proof -
  have "newline \<notin> set (summary_line s)"
    by (simp add: summary_line_def newline_eq)
  from text_lines_line[OF this] show ?thesis
    by (simp add: found_msg_def summary_line_def)
qed

text \<open>
  The record for non-float tokens on more than one line: a line that holds only a space
  against an empty line. Neither \<^verbatim>\<open>%s\<close> conversion finds a token, \<^verbatim>\<open>str1\<close> and
  \<^verbatim>\<open>str2\<close> still hold the leading white space of the two lines, a space with the newline
  and the newline, and the record quotes them.
\<close>

lemma nonfloat_record_on_three_lines:
  "map_option (\<lambda>out. text_lines (concat out)) (stdout_of (main ex_ext ex_blank ex_state))
   = Some [''line   1: 1-th non-float tokens differ: '' @ [CHR 0x27] @ '' '',
           [CHR 0x27] @ '' != '' @ [CHR 0x27],
           [CHR 0x27] @ ''.'',
           ''Found 1 differences in 1 lines'']"
  by code_simp

section \<open>The properties\<close>

text \<open>
  C3, as stated: two finite values are equal iff the absolute difference is within the
  absolute tolerance or the relative difference is within the relative tolerance, for
  every tolerance. Two zeros under an absolute tolerance of \<open>- 1\<close> are equal for
  \<open>should_accept\<close>: their relative difference is zero divided by zero, a NaN, and a NaN
  is not greater than the relative tolerance. Neither difference is within its
  tolerance. No operation rounds here.
\<close>

theorem negative_tolerance_counterexample:
  "should_accept Some (Finite 0) (Finite 0) (Finite (- 1)) (Finite (1 / 10 ^ 7))
     (Finite 0) (Finite 0)
   \<and> \<not> (flt_le (fabsl (fsub Some (Finite 0) (Finite 0))) (Finite (- 1))
        \<or> flt_le (fabsl (fdiv Some (fsub Some (Finite 0) (Finite 0)) (Finite 0)))
             (Finite (1 / 10 ^ 7)))"
  by (simp add: should_accept_def rounded_def flt_greater_def flt_le_def)

text \<open>
  C3, amended. The body of \<open>should_accept\<close> is the equality of two parsed floating-point
  values \<open>a\<close> and \<open>b\<close> under an absolute tolerance \<open>pa\<close> that is not negative and a
  relative tolerance \<open>pr\<close> that is not NaN, whatever the rounding of the arithmetic.
  Both finite: equal iff the absolute difference is within \<open>pa\<close> or the relative
  difference is within \<open>pr\<close>, the differences being the ones the code computes. Both
  NaN: equal. Both infinite: equal iff the signs match, that is, iff they are the same
  infinity. Any other combination: not equal.
\<close>

theorem should_accept_classes:
  assumes "flt_le (Finite 0) pa" and "\<not> isnan pr"
  shows "(isfinite a \<and> isfinite b \<longrightarrow>
            should_accept rnd a b pa pr k n
            = (flt_le (fabsl (fsub rnd a b)) pa \<or> flt_le (fabsl (fdiv rnd (fsub rnd a b) b)) pr))
       \<and> (isnan a \<and> isnan b \<longrightarrow> should_accept rnd a b pa pr k n)
       \<and> (isinf a \<and> isinf b \<longrightarrow> should_accept rnd a b pa pr k n = (a = b))
       \<and> (\<not> (isfinite a \<and> isfinite b) \<and> \<not> (isnan a \<and> isnan b) \<and> \<not> (isinf a \<and> isinf b)
            \<longrightarrow> \<not> should_accept rnd a b pa pr k n)"
proof (intro conjI impI)
  assume "isfinite a \<and> isfinite b"
  then obtain x y where "a = Finite x" "b = Finite y" by (cases a; cases b) auto
  then show "should_accept rnd a b pa pr k n
            = (flt_le (fabsl (fsub rnd a b)) pa \<or> flt_le (fabsl (fdiv rnd (fsub rnd a b) b)) pr)"
    using should_accept_finite[OF assms] by simp
next
  assume "isnan a \<and> isnan b"
  then show "should_accept rnd a b pa pr k n"
    by (cases a; cases b) (auto simp: should_accept_def)
next
  assume "isinf a \<and> isinf b"
  then show "should_accept rnd a b pa pr k n = (a = b)"
    by (cases a; cases b) (auto simp: should_accept_def flt_greater_def)
next
  assume "\<not> (isfinite a \<and> isfinite b) \<and> \<not> (isnan a \<and> isnan b) \<and> \<not> (isinf a \<and> isinf b)"
  then show "\<not> should_accept rnd a b pa pr k n"
    by (cases a; cases b) (auto simp: should_accept_def flt_greater_def)
qed

theorem should_accept_classes_witness:
  "flt_le (Finite 0) (Finite (1 / 10 ^ 7)) \<and> \<not> isnan (Finite (1 / 10 ^ 7))
   \<and> isfinite (Finite 1) \<and> isfinite (Finite 2) \<and> isfinite (Finite (1 + 1 / 10 ^ 8))
   \<and> should_accept Some (Finite 1) (Finite (1 + 1 / 10 ^ 8))
        (Finite (1 / 10 ^ 7)) (Finite (1 / 10 ^ 7)) (Finite 2) (Finite 2)
   \<and> \<not> should_accept Some (Finite 1) (Finite 2) (Finite (1 / 10 ^ 7)) (Finite (1 / 10 ^ 7))
        (Finite 2) (Finite 2)
   \<and> should_accept Some (Finite 0) (Finite 0) (Finite (1 / 10 ^ 7)) (Finite (1 / 10 ^ 7))
        (Finite 2) (Finite 2)
   \<and> isnan NaN
   \<and> should_accept Some NaN NaN (Finite (1 / 10 ^ 7)) (Finite (1 / 10 ^ 7)) (Finite 2) (Finite 2)
   \<and> isinf PInf \<and> isinf MInf
   \<and> should_accept Some MInf MInf (Finite (1 / 10 ^ 7)) (Finite (1 / 10 ^ 7))
        (Finite 2) (Finite 2)
   \<and> \<not> should_accept Some PInf MInf (Finite (1 / 10 ^ 7)) (Finite (1 / 10 ^ 7))
        (Finite 2) (Finite 2)
   \<and> \<not> should_accept Some (Finite 1) PInf (Finite (1 / 10 ^ 7)) (Finite (1 / 10 ^ 7))
        (Finite 2) (Finite 2)
   \<and> \<not> should_accept Some NaN (Finite 1) (Finite (1 / 10 ^ 7)) (Finite (1 / 10 ^ 7))
        (Finite 2) (Finite 2)"
proof -
  have tol: "flt_le (Finite 0) (Finite (1 / 10 ^ 7))" "\<not> isnan (Finite (1 / 10 ^ 7))"
    by (simp_all add: flt_le_def)
  note inst = should_accept_classes[OF tol, where rnd = Some and k = "Finite 2" and n = "Finite 2"]
  show ?thesis
    using tol inst[of "Finite 1" "Finite (1 + 1 / 10 ^ 8)"] inst[of "Finite 1" "Finite 2"]
      inst[of "Finite 0" "Finite 0"]
      inst[of NaN NaN] inst[of MInf MInf] inst[of PInf MInf] inst[of "Finite 1" PInf]
      inst[of NaN "Finite 1"]
    by (simp add: flt_le_def rounded_def)
qed

text \<open>
  C1. The specification's verdict depends on the counts: with \<open>z = 1.645\<close> (the
  one-sided normal quantile for \<open>alpha = 0.05\<close>, rounded) and \<open>p0 = 0.95\<close> it accepts 100
  successes in 100 cases and rejects 0 successes in 100 cases. \<open>should_accept\<close> gives
  the same answer for any two pairs of counts, these two among them: it does not read
  its parameters.
\<close>

theorem should_accept_ignores_counts:
  "should_accept rnd a b pa pr k n = should_accept rnd a b pa pr k' n'
   \<and> spec_accept (1645 / 1000) 100 100 (95 / 100)
   \<and> \<not> spec_accept (1645 / 1000) 0 100 (95 / 100)"
proof (intro conjI)
  show "should_accept rnd a b pa pr k n = should_accept rnd a b pa pr k' n'"
    by (simp add: should_accept_def)
next
  have "(0::real) \<le> (100 / 100 - 95 / 100 + 1 / (2 * 100)) / sqrt (95 / 100 * (1 - 95 / 100) / 100)"
    by (intro divide_nonneg_nonneg real_sqrt_ge_zero) simp_all
  then have "- (1645 / 1000) \<le> (100 / 100 - 95 / 100 + 1 / (2 * 100)) / sqrt (95 / 100 * (1 - 95 / 100) / 100)"
    by (rule order_trans[rotated]) simp
  then show "spec_accept (1645 / 1000) 100 100 (95 / 100)"
    unfolding spec_accept_def spec_z_obs_def .
next
  define r :: real where "r = sqrt (95 / 100 * (1 - 95 / 100) / 100)"
  have rpos: "0 < r" by (simp add: r_def)
  have "r < 3 / 100"
    unfolding r_def by (rule real_less_lsqrt) (simp_all add: power2_eq_square)
  then have a: "(1645 / 1000) * r < 945 / 1000" by simp
  have b: "1645 / 1000 < (945 / 1000) / r"
    using a by (simp only: pos_less_divide_eq[OF rpos])
  have "(- 945 / 1000) / r = - ((945 / 1000) / r)" by simp
  with b have "(- 945 / 1000) / r < - (1645 / 1000)" by linarith
  moreover have "spec_z_obs 0 100 (95 / 100) = (- 945 / 1000) / r"
    by (simp add: spec_z_obs_def r_def)
  ultimately show "\<not> spec_accept (1645 / 1000) 0 100 (95 / 100)"
    by (simp add: spec_accept_def)
qed

text \<open>
  C10. The token loop terminates. A pass through its body that goes on to the next pass
  has moved at least one of the cursors \<open>pos1\<close>, \<open>pos2\<close> forward and none backward, both
  still index into their arrays, and the arrays are the same. So the loop makes at most
  as many passes as the two arrays have characters, plus one: run with that bound it
  gives the result of the loop.
\<close>

theorem token_loop_terminates:
  "(token_iter E s = Inr (Next s') \<longrightarrow>
      (pos1 s < pos1 s' \<or> pos2 s < pos2 s') \<and> pos1 s \<le> pos1 s' \<and> pos2 s \<le> pos2 s'
      \<and> pos1 s' < length (line1 s') \<and> pos2 s' < length (line2 s')
      \<and> line1 s' = line1 s \<and> line2 s' = line2 s)
   \<and> token_loop_fuel (Suc (length (line1 s) + length (line2 s))) E s = Some (token_loop E s)"
proof (intro conjI impI)
  assume ti: "token_iter E s = Inr (Next s')"
  from token_iter_progress[OF ti]
  show "pos1 s < pos1 s' \<or> pos2 s < pos2 s'" "pos1 s \<le> pos1 s'" "pos2 s \<le> pos2 s'"
    "pos1 s' < length (line1 s')" "pos2 s' < length (line2 s')"
    "line1 s' = line1 s" "line2 s' = line2 s"
    by simp_all
next
  show "token_loop_fuel (Suc (length (line1 s) + length (line2 s))) E s = Some (token_loop E s)"
    by (rule token_loop_fuel_enough) simp
qed

theorem token_loop_terminates_witness:
  "token_iter ex_ext ex_line_state = Inr (Next ex_next_state)
   \<and> (pos1 ex_line_state < pos1 ex_next_state \<or> pos2 ex_line_state < pos2 ex_next_state)
   \<and> pos1 ex_line_state \<le> pos1 ex_next_state \<and> pos2 ex_line_state \<le> pos2 ex_next_state
   \<and> pos1 ex_next_state < length (line1 ex_next_state)
   \<and> pos2 ex_next_state < length (line2 ex_next_state)
   \<and> line1 ex_next_state = line1 ex_line_state \<and> line2 ex_next_state = line2 ex_line_state"
proof -
  have h: "token_iter ex_ext ex_line_state = Inr (Next ex_next_state)"
    by code_simp
  from token_loop_terminates[of ex_ext ex_line_state ex_next_state] h
  show ?thesis by blast
qed

text \<open>
  C5. When one file has fewer lines than the other, the comparison is the comparison of
  the lines both have, followed by exactly one more step: the counter \<^verbatim>\<open>diff\<close> goes up
  by one, one line \<^verbatim>\<open>file 1 ended before 2.\<close> (or \<^verbatim>\<open>file 2 ended before 1.\<close>) is
  printed with the current line number, and the loop is left. Nothing of the longer file
  after the line just read has any effect. The line number is the number of lines of the
  shorter file plus one, counted from the line number at the start. Over the whole
  comparison the number of such lines on standard output goes up by exactly one when the
  files differ in length, and not at all when they do not.
\<close>

theorem stream_length_mismatch:
  "(length ls1 < length ls2 \<longrightarrow>
      compare_loop E s ls1 ls2 =
        (case compare_loop E s ls1 (take (length ls1) ls2) of
           Inl e \<Rightarrow> Inl e
         | Inr s' \<Rightarrow> Inr (diff_incr (emit (line_msg (linenr s') ''file 1 ended before 2.'')
                            (s'\<lparr>line2 := store_line (line2 s') (ls2 ! length ls1)\<rparr>)))))
   \<and> (length ls2 < length ls1 \<longrightarrow>
      compare_loop E s ls1 ls2 =
        (case compare_loop E s (take (length ls2) ls1) ls2 of
           Inl e \<Rightarrow> Inl e
         | Inr s' \<Rightarrow> Inr (diff_incr (emit (line_msg (linenr s') ''file 2 ended before 1.'')
                            (s'\<lparr>line1 := store_line (line1 s') (ls1 ! length ls2)\<rparr>)))))
   \<and> (compare_loop E s ls1 ls2 = Inr t \<longrightarrow>
        linenr t = linenr s + min (length ls1) (length ls2) + 1
        \<and> mismatch_count t = mismatch_count s + (if length ls1 = length ls2 then 0 else 1))"
proof (intro conjI impI)
  assume "length ls1 < length ls2"
  then show "compare_loop E s ls1 ls2 =
        (case compare_loop E s ls1 (take (length ls1) ls2) of
           Inl e \<Rightarrow> Inl e
         | Inr s' \<Rightarrow> Inr (diff_incr (emit (line_msg (linenr s') ''file 1 ended before 2.'')
                            (s'\<lparr>line2 := store_line (line2 s') (ls2 ! length ls1)\<rparr>))))"
  proof (induction ls1 arbitrary: s ls2)
    case Nil
    then obtain l2 r2 where "ls2 = l2 # r2" by (cases ls2) auto
    then show ?case by (simp add: emit_def diff_incr_def)
  next
    case (Cons l1 r1)
    then obtain l2 r2 where ls2: "ls2 = l2 # r2" by (cases ls2) auto
    with Cons.prems have "length r1 < length r2" by simp
    note IH = Cons.IH[OF this]
    show ?case by (simp add: ls2 IH split: sum.split)
  qed
next
  assume "length ls2 < length ls1"
  then show "compare_loop E s ls1 ls2 =
        (case compare_loop E s (take (length ls2) ls1) ls2 of
           Inl e \<Rightarrow> Inl e
         | Inr s' \<Rightarrow> Inr (diff_incr (emit (line_msg (linenr s') ''file 2 ended before 1.'')
                            (s'\<lparr>line1 := store_line (line1 s') (ls1 ! length ls2)\<rparr>))))"
  proof (induction ls2 arbitrary: s ls1)
    case Nil
    then obtain l1 r1 where "ls1 = l1 # r1" by (cases ls1) auto
    then show ?case by (simp add: emit_def diff_incr_def)
  next
    case (Cons l2 r2)
    then obtain l1 r1 where ls1: "ls1 = l1 # r1" by (cases ls1) auto
    with Cons.prems have "length r2 < length r1" by simp
    note IH = Cons.IH[OF this]
    show ?case by (simp add: ls1 IH split: sum.split)
  qed
next
  assume c: "compare_loop E s ls1 ls2 = Inr t"
  from compare_loop_preserves[OF c]
  show "linenr t = linenr s + min (length ls1) (length ls2) + 1" by simp
  from mismatch_count_compare_loop[OF c]
  show "mismatch_count t = mismatch_count s + (if length ls1 = length ls2 then 0 else 1)" .
qed

theorem stream_length_mismatch_witness:
  "length ex_lines1 < length ex_lines2
   \<and> compare_loop ex_ext ex_state ex_lines1 ex_lines2 =
        (case compare_loop ex_ext ex_state ex_lines1 (take (length ex_lines1) ex_lines2) of
           Inl e \<Rightarrow> Inl e
         | Inr s' \<Rightarrow> Inr (diff_incr (emit (line_msg (linenr s') ''file 1 ended before 2.'')
                            (s'\<lparr>line2 := store_line (line2 s') (ex_lines2 ! length ex_lines1)\<rparr>))))
   \<and> (case compare_loop ex_ext ex_state ex_lines1 ex_lines2 of
         Inl e \<Rightarrow> False
       | Inr t \<Rightarrow> out t = [''line   2: file 1 ended before 2.'' @ [newline]] \<and> diff t = 1
                  \<and> linenr t = 2 \<and> mismatch_count t = mismatch_count ex_state + 1)"
proof -
  have l: "length ex_lines1 < length ex_lines2" by (simp add: ex_lines1_def ex_lines2_def)
  have e: "case compare_loop ex_ext ex_state ex_lines1 ex_lines2 of
         Inl e \<Rightarrow> False
       | Inr t \<Rightarrow> out t = [''line   2: file 1 ended before 2.'' @ [newline]] \<and> diff t = 1
                  \<and> linenr t = 2"
    by code_simp
  from e obtain t where t: "compare_loop ex_ext ex_state ex_lines1 ex_lines2 = Inr t"
    by (cases "compare_loop ex_ext ex_state ex_lines1 ex_lines2") simp_all
  from stream_length_mismatch[of ex_lines1 ex_lines2 ex_ext ex_state t] l t
  have "compare_loop ex_ext ex_state ex_lines1 ex_lines2 =
        (case compare_loop ex_ext ex_state ex_lines1 (take (length ex_lines1) ex_lines2) of
           Inl e \<Rightarrow> Inl e
         | Inr s' \<Rightarrow> Inr (diff_incr (emit (line_msg (linenr s') ''file 1 ended before 2.'')
                            (s'\<lparr>line2 := store_line (line2 s') (ex_lines2 ! length ex_lines1)\<rparr>))))"
    and "mismatch_count t = mismatch_count ex_state + 1"
    by simp_all
  with l e t show ?thesis by simp
qed

text \<open>
  C2. The header comment of the file gives the reference two numbers for each case and
  the submission one. On such a case, \<^verbatim>\<open>1.00\<close> against \<^verbatim>\<open>0.90 1.10\<close>, main does not
  take two reference tokens for one of the submission: whatever \<^verbatim>\<open>equal\<close> and the
  number conversions are, the run ends with at least one difference counted and the
  summary line printed last. With the sample parameters the output is the float
  difference of \<^verbatim>\<open>1.00\<close> and \<^verbatim>\<open>0.90\<close>, a white-space mismatch, a missing second
  token, and two differences in the summary.
\<close>

theorem interval_line_is_a_difference:
  "(\<exists>s. main E (ex_env [] interval_sub interval_ref) s0 = Return s
       \<and> 0 < diff s \<and> last (out s) = found_msg s)
   \<and> stdout_of (main ex_ext (ex_env [] interval_sub interval_ref) ex_state) =
       Some [''line   1: 1-th float differs: # != #  absdiff = #  reldiff = #'' @ [newline],
             ''line   1: whitespace mismatch after 1-th token.'' @ [newline],
             ''line   1: file 1 misses 2-th token.'' @ [newline],
             ''Found 2 differences in 1 lines'' @ [newline]]"
proof (rule conjI)
  show "stdout_of (main ex_ext (ex_env [] interval_sub interval_ref) ex_state) =
       Some [''line   1: 1-th float differs: # != #  absdiff = #  reldiff = #'' @ [newline],
             ''line   1: whitespace mismatch after 1-th token.'' @ [newline],
             ''line   1: file 1 misses 2-th token.'' @ [newline],
             ''Found 2 differences in 1 lines'' @ [newline]]"
    by code_simp
next
  let ?V = "ex_env [] interval_sub interval_ref"
  let ?t = "(startup s0)\<lparr>linenr := 0, diff := 0, wsdiff := 0\<rparr>"
  have r1: "read_lines interval_sub = [interval_sub]" by code_simp
  have r2: "read_lines interval_ref = [interval_ref]" by code_simp
  have "main E ?V s0 =
     (case compare_loop E ?t (read_lines interval_sub) (read_lines interval_ref) of
        Inl f \<Rightarrow> Crash f
      | Inr s2 \<Rightarrow> Return (if 0 < diff s2 then emit (found_msg s2) s2 else s2))"
    by (rule main_unfold) (simp_all add: ex_env_def open_file_def startup_sel)
  then have m: "main E ?V s0 =
     (case compare_loop E ?t [interval_sub] [interval_ref] of
        Inl f \<Rightarrow> Crash f
      | Inr s2 \<Rightarrow> Return (if 0 < diff s2 then emit (found_msg s2) s2 else s2))"
    unfolding r1 r2 .
  let ?t1 = "?t\<lparr>linenr := Suc (linenr ?t), line1 := store_line (line1 ?t) interval_sub,
                 line2 := store_line (line2 ?t) interval_ref\<rparr>"
  let ?u = "?t1\<lparr>str1 := [], str2 := [], n1 := 0, n2 := 0, tokennr := 0, pos1 := 0, pos2 := 0\<rparr>"
  have sc: "\<And>b. scanspace (store_line b interval_sub) 0 = Some ([], 0)"
    "\<And>b. scanspace (store_line b interval_ref) 0 = Some ([], 0)"
    by (simp_all add: interval_sub_def interval_ref_def scanspace_start isspace_def)
  have cl: "compare_line E ?t1 = token_loop E ?u"
    by (simp add: compare_line_def sc)
  have "\<exists>s'. token_loop E ?u = Inr s' \<and> diff ?u < diff s'"
    by (rule interval_line_token_loop[where ?b1.0 = "line1 ?t" and ?b2.0 = "line2 ?t"])
       (simp_all add: interval_sub_def interval_ref_def)
  then obtain s' where s': "token_loop E ?u = Inr s'" "diff ?u < diff s'" by auto
  let ?s2 = "s'\<lparr>linenr := Suc (linenr s')\<rparr>"
  have "compare_loop E ?t [interval_sub] [interval_ref] = Inr ?s2"
    using cl s'(1) by simp
  moreover have "0 < diff ?s2" using s'(2) by simp
  ultimately have "main E ?V s0 = Return (emit (found_msg ?s2) ?s2)"
    by (simp add: m)
  moreover have "0 < diff (emit (found_msg ?s2) ?s2)" using s'(2) by simp
  moreover have "last (out (emit (found_msg ?s2) ?s2)) = found_msg (emit (found_msg ?s2) ?s2)"
    by (simp add: found_msg_def)
  ultimately show "\<exists>s. main E (ex_env [] interval_sub interval_ref) s0 = Return s
       \<and> 0 < diff s \<and> last (out s) = found_msg s" by blast
qed

text \<open>
  C6. An empty value is accepted: for \<^verbatim>\<open>-a ""\<close> the option code stores what strtold
  returned for the empty string in \<^verbatim>\<open>alpha\<close> and goes on, and likewise for
  \<^verbatim>\<open>--probability=\<close>. The short option \<^verbatim>\<open>-p\<close> has no argument in the option string
  \<^verbatim>\<open>"a:p"\<close>, so \<^verbatim>\<open>optarg\<close> is NULL and strtold reads through a null pointer.
\<close>

theorem empty_value_accepted:
  "parse_option E s (Opt (CHR ''a'') (Some [])) = Inr (s\<lparr>alpha := fst (strtold_ext E [])\<rparr>)
   \<and> parse_option E s (Opt (CHR ''p'') (Some [])) = Inr (s\<lparr>probability := fst (strtold_ext E [])\<rparr>)
   \<and> parse_option E s (Opt (CHR ''p'') None) = Inl (Crash Null_pointer)"
  by (simp add: parse_option_def parse_value_def NUL_def split_def)

text \<open>
  C7. With both file arguments \<^verbatim>\<open>-\<close>, main never reaches its \<^verbatim>\<open>return\<close> and never
  faults in a line array, so nothing is compared; and when the getopt loop ended without
  an error and neither \<^verbatim>\<open>--help\<close> nor \<^verbatim>\<open>--version\<close> was given, the run ends in
  \<^verbatim>\<open>error(0,"both files specified as standard input")\<close>.
\<close>

theorem both_stdin_is_usage_error:
  assumes "3 \<le> length (operands V)" and "operands V ! 1 = ''-''" and "operands V ! 2 = ''-''"
  shows "(\<forall>s. main E V s0 \<noteq> Return s) \<and> main E V s0 \<noteq> Crash Out_of_bounds
         \<and> (\<forall>s1. parse_options E (startup s0) (getopt_results V) = Inr s1
                 \<and> \<not> show_help s1 \<and> \<not> show_version s1
               \<longrightarrow> main E V s0 = Failed ''both files specified as standard input'')"
proof (intro conjI allI impI)
  fix s show "main E V s0 \<noteq> Return s"
  proof
    assume "main E V s0 = Return s"
    then have "main E V s0 = Return s \<or> main E V s0 = Crash Out_of_bounds" by simp
    then obtain s1 file1 file2 where "\<not> (operands V ! 1 = ''-'' \<and> operands V ! 2 = ''-'')"
      by (rule main_reaches_compare)
    with assms show False by simp
  qed
next
  show "main E V s0 \<noteq> Crash Out_of_bounds"
  proof
    assume "main E V s0 = Crash Out_of_bounds"
    then have "main E V s0 = Return undefined \<or> main E V s0 = Crash Out_of_bounds" by simp
    then obtain s1 file1 file2 where "\<not> (operands V ! 1 = ''-'' \<and> operands V ! 2 = ''-'')"
      by (rule main_reaches_compare)
    with assms show False by simp
  qed
next
  fix s1
  assume "parse_options E (startup s0) (getopt_results V) = Inr s1
          \<and> \<not> show_help s1 \<and> \<not> show_version s1"
  with assms show "main E V s0 = Failed ''both files specified as standard input''"
    by (simp add: main_def Let_def error_def)
qed

theorem both_stdin_is_usage_error_witness:
  "3 \<le> length (operands ex_both_stdin) \<and> operands ex_both_stdin ! 1 = ''-''
   \<and> operands ex_both_stdin ! 2 = ''-''
   \<and> main ex_ext ex_both_stdin ex_state = Failed ''both files specified as standard input''"
proof -
  have a: "3 \<le> length (operands ex_both_stdin)" "operands ex_both_stdin ! 1 = ''-''"
    "operands ex_both_stdin ! 2 = ''-''"
    by (simp_all add: ex_both_stdin_def)
  have p: "parse_options ex_ext (startup ex_state) (getopt_results ex_both_stdin) = Inr (startup ex_state)"
    by (simp add: ex_both_stdin_def)
  from both_stdin_is_usage_error[OF a, of ex_ext ex_state] p a
  show ?thesis by (simp add: startup_sel)
qed

text \<open>
  C8. With no \<^verbatim>\<open>-a\<close>/\<^verbatim>\<open>--alpha\<close> and no \<^verbatim>\<open>-p\<close>/\<^verbatim>\<open>--probability\<close> among the options,
  \<^verbatim>\<open>alpha\<close> is 0.05 and \<^verbatim>\<open>probability\<close> is 0.95 after the getopt loop and when main
  returns. After the getopt loop nothing assigns them: a pass of the token loop and the
  whole comparison loop leave both as they were.
\<close>

theorem parameters_default_and_fixed:
  "(\<not> list_ex parameter_option (getopt_results V) \<longrightarrow>
       (parse_options E (startup s0) (getopt_results V) = Inr s1 \<longrightarrow>
          alpha s1 = Finite (5 / 100) \<and> probability s1 = Finite (95 / 100))
       \<and> (main E V s0 = Return s \<longrightarrow>
          alpha s = Finite (5 / 100) \<and> probability s = Finite (95 / 100)))
   \<and> (token_iter E t = Inr r \<longrightarrow>
         alpha (flow_state r) = alpha t \<and> probability (flow_state r) = probability t)
   \<and> (compare_loop E t ls1 ls2 = Inr t' \<longrightarrow> alpha t' = alpha t \<and> probability t' = probability t)"
proof (intro conjI impI)
  assume no: "\<not> list_ex parameter_option (getopt_results V)"
    and p: "parse_options E (startup s0) (getopt_results V) = Inr s1"
  from parse_options_Inr[OF p] no
  show "alpha s1 = Finite (5 / 100)" "probability s1 = Finite (95 / 100)"
    by (simp_all add: startup_sel default_alpha_def default_probability_def)
next
  assume no: "\<not> list_ex parameter_option (getopt_results V)"
    and m: "main E V s0 = Return s"
  from m have "main E V s0 = Return s \<or> main E V s0 = Crash Out_of_bounds" by simp
  then obtain u file1 file2 where
    p: "parse_options E (startup s0) (getopt_results V) = Inr u"
    and c: "\<not> show_help u" "\<not> show_version u" "3 \<le> length (operands V)"
      "\<not> (operands V ! 1 = ''-'' \<and> operands V ! 2 = ''-'')"
      "open_file V (operands V ! 1) = Some file1"
      "open_file V (operands V ! 2) = Some file2"
    by (rule main_reaches_compare)
  from parse_options_Inr[OF p] no
  have u: "alpha u = Finite (5 / 100)" "probability u = Finite (95 / 100)"
    by (simp_all add: startup_sel default_alpha_def default_probability_def)
  from main_unfold[OF p c] m obtain s2 where
    cl: "compare_loop E (u\<lparr>linenr := 0, diff := 0, wsdiff := 0\<rparr>) (read_lines file1) (read_lines file2) = Inr s2"
    and s: "s = (if 0 < diff s2 then emit (found_msg s2) s2 else s2)"
    by (cases "compare_loop E (u\<lparr>linenr := 0, diff := 0, wsdiff := 0\<rparr>) (read_lines file1) (read_lines file2)") auto
  from compare_loop_preserves[OF cl] u
  show "alpha s = Finite (5 / 100)" "probability s = Finite (95 / 100)"
    by (simp_all add: s)
next
  assume "token_iter E t = Inr r"
  from token_iter_preserves[OF this]
  show "alpha (flow_state r) = alpha t" "probability (flow_state r) = probability t" by simp_all
next
  assume "compare_loop E t ls1 ls2 = Inr t'"
  from compare_loop_preserves[OF this]
  show "alpha t' = alpha t" "probability t' = probability t" by simp_all
qed

theorem parameters_default_and_fixed_witness:
  "\<not> list_ex parameter_option (getopt_results ex_differ)
   \<and> \<not> list_ex parameter_option (getopt_results ex_differ2)
   \<and> (case parse_options ex_ext (startup ex_state) (getopt_results ex_differ) of
        Inr s1 \<Rightarrow> alpha s1 = Finite (5 / 100) \<and> probability s1 = Finite (95 / 100)
      | Inl e \<Rightarrow> False)
   \<and> (case main ex_ext ex_differ2 ex_state of
        Return s \<Rightarrow> alpha s = Finite (5 / 100) \<and> probability s = Finite (95 / 100)
      | _ \<Rightarrow> False)
   \<and> token_iter ex_ext ex_line_state = Inr (Next ex_next_state)
   \<and> alpha ex_next_state = alpha ex_line_state
   \<and> probability ex_next_state = probability ex_line_state"
proof -
  have no: "\<not> list_ex parameter_option (getopt_results ex_differ)"
    "\<not> list_ex parameter_option (getopt_results ex_differ2)"
    by (simp_all add: ex_differ_def ex_differ2_def ex_env_def)
  obtain s1 where p: "parse_options ex_ext (startup ex_state) (getopt_results ex_differ) = Inr s1"
    by (simp add: ex_differ_def ex_env_def parse_option_def)
  have "is_Return (main ex_ext ex_differ2 ex_state)" by code_simp
  then obtain s where s: "main ex_ext ex_differ2 ex_state = Return s"
    by (cases "main ex_ext ex_differ2 ex_state") simp_all
  have h: "token_iter ex_ext ex_line_state = Inr (Next ex_next_state)" by code_simp
  from parameters_default_and_fixed[of ex_differ ex_ext ex_state s1] no(1) p
  have a: "alpha s1 = Finite (5 / 100) \<and> probability s1 = Finite (95 / 100)" by blast
  from parameters_default_and_fixed[of ex_differ2 ex_ext ex_state _ s] no(2) s
  have b: "alpha s = Finite (5 / 100) \<and> probability s = Finite (95 / 100)" by blast
  from parameters_default_and_fixed[of _ ex_ext _ _ _ ex_line_state "Next ex_next_state"] h
  have c: "alpha ex_next_state = alpha ex_line_state \<and> probability ex_next_state = probability ex_line_state"
    by simp
  from no a b c h show ?thesis by (simp add: p s)
qed

text \<open>
  C4. When the arguments were parsed and both files were opened, main returns, with exit
  status 0 also when differences were found, unless a read runs past a line array. An
  exit status that is not 0 comes from \<^verbatim>\<open>error()\<close> only, called for a bad command line
  or for a file that cannot be opened.
\<close>

theorem exit_status_of_main:
  "(opened E V s0 \<longrightarrow>
      (\<exists>s. main E V s0 = Return s \<and> exit_status (main E V s0) = Some Zero)
      \<or> (\<exists>f. main E V s0 = Crash f))
   \<and> (exit_status (main E V s0) = Some Nonzero \<longrightarrow>
        (\<exists>msg. main E V s0 = Failed msg
           \<and> (msg \<in> set usage_errors
               \<or> (\<exists>name. open_file V name = None
                     \<and> msg = ''cannot open '' @ [CHR 0x27] @ name @ [CHR 0x27]))))"
proof (intro conjI impI)
  assume "opened E V s0"
  then obtain s1 file1 file2 where
    p: "parse_options E (startup s0) (getopt_results V) = Inr s1"
    and c: "\<not> show_help s1" "\<not> show_version s1" "3 \<le> length (operands V)"
      "\<not> (operands V ! 1 = ''-'' \<and> operands V ! 2 = ''-'')"
      "open_file V (operands V ! 1) = Some file1"
      "open_file V (operands V ! 2) = Some file2"
    by (auto simp: opened_def split: sum.splits)
  let ?c = "compare_loop E (s1\<lparr>linenr := 0, diff := 0, wsdiff := 0\<rparr>) (read_lines file1) (read_lines file2)"
  show "(\<exists>s. main E V s0 = Return s \<and> exit_status (main E V s0) = Some Zero)
      \<or> (\<exists>f. main E V s0 = Crash f)"
  proof (cases ?c)
    case (Inl f)
    then have "main E V s0 = Crash f" by (simp add: main_unfold[OF p c])
    then show ?thesis by blast
  next
    case (Inr s2)
    then show ?thesis by (simp add: main_unfold[OF p c])
  qed
next
  assume "exit_status (main E V s0) = Some Nonzero"
  then obtain msg where f: "main E V s0 = Failed msg"
    by (cases "main E V s0") simp_all
  from main_Failed[OF f] f
  show "\<exists>msg. main E V s0 = Failed msg
           \<and> (msg \<in> set usage_errors
               \<or> (\<exists>name. open_file V name = None
                     \<and> msg = ''cannot open '' @ [CHR 0x27] @ name @ [CHR 0x27]))"
    by blast
qed

theorem exit_status_of_main_witness:
  "opened ex_ext ex_differ2 ex_state
   \<and> stdout_of (main ex_ext ex_differ2 ex_state)
       = Some [''line   1: file 1, 1-th entry cannot be parsed as float.'' @ [newline],
               ''Found 1 differences in 1 lines'' @ [newline]]
   \<and> exit_status (main ex_ext ex_differ2 ex_state) = Some Zero
   \<and> exit_status (main ex_ext ex_both_stdin ex_state) = Some Nonzero
   \<and> main ex_ext ex_both_stdin ex_state \<in> Failed ` set usage_errors"
proof -
  have o: "opened ex_ext ex_differ2 ex_state" by code_simp
  have r: "is_Return (main ex_ext ex_differ2 ex_state)" by code_simp
  have d: "stdout_of (main ex_ext ex_differ2 ex_state)
       = Some [''line   1: file 1, 1-th entry cannot be parsed as float.'' @ [newline],
               ''Found 1 differences in 1 lines'' @ [newline]]"
    by code_simp
  have n: "exit_status (main ex_ext ex_both_stdin ex_state) = Some Nonzero" by code_simp
  have none: "\<And>name. open_file ex_both_stdin name = None \<Longrightarrow> name \<noteq> ''-''"
    by (auto simp: open_file_def)
  from exit_status_of_main[of ex_ext ex_differ2 ex_state] o r
  have z: "exit_status (main ex_ext ex_differ2 ex_state) = Some Zero" by auto
  from exit_status_of_main[of ex_ext ex_both_stdin ex_state] n
  obtain msg where m: "main ex_ext ex_both_stdin ex_state = Failed msg"
    "msg \<in> set usage_errors
     \<or> (\<exists>name. open_file ex_both_stdin name = None
           \<and> msg = ''cannot open '' @ [CHR 0x27] @ name @ [CHR 0x27])"
    by blast
  have "main ex_ext ex_both_stdin ex_state = Failed ''both files specified as standard input''"
    by code_simp
  with m have "msg \<in> set usage_errors" by (simp add: usage_errors_def)
  with m(1) o d z n show ?thesis by blast
qed

text \<open>
  C9, as stated: every run prints a summary line with the count of
  differences, also when the count is zero, and a verdict. A file compared with itself
  prints nothing at all.
\<close>

theorem no_summary_counterexample:
  "stdout_of (main ex_ext ex_same ex_state) = Some []"
  by code_simp

text \<open>
  C9, amended. When main returns, standard output holds one record for each difference
  counted in \<^verbatim>\<open>diff\<close>, and one for each white-space mismatch counted in \<^verbatim>\<open>wsdiff\<close>
  unless \<^verbatim>\<open>ignore_ws\<close> is set, followed by the summary line
  \<^verbatim>\<open>Found <diff> differences in <lines> lines\<close> exactly when \<^verbatim>\<open>diff\<close> is greater than
  zero. Every record begins with a line of the form \<^verbatim>\<open>line <N>: <description>\<close>, and
  a record of any kind but the one for non-float tokens is that one line. The lines of
  standard output are the lines of the records, in order, and the summary line.
\<close>

theorem output_of_main:
  assumes "main E V s0 = Return s"
  shows "\<exists>recs. out s = recs @ (if 0 < diff s then [found_msg s] else [])
            \<and> length recs = diff s + (if ignore_ws E then 0 else wsdiff s)
            \<and> list_all diagnostic_record recs
            \<and> text_lines (concat (out s))
                = concat (map text_lines recs)
                  @ (if 0 < diff s then [summary_line s] else [])"
proof -
  from assms have "main E V s0 = Return s \<or> main E V s0 = Crash Out_of_bounds" by simp
  then obtain u file1 file2 where
    p: "parse_options E (startup s0) (getopt_results V) = Inr u"
    and c: "\<not> show_help u" "\<not> show_version u" "3 \<le> length (operands V)"
      "\<not> (operands V ! 1 = ''-'' \<and> operands V ! 2 = ''-'')"
      "open_file V (operands V ! 1) = Some file1"
      "open_file V (operands V ! 2) = Some file2"
    by (rule main_reaches_compare)
  let ?t = "u\<lparr>linenr := 0, diff := 0, wsdiff := 0\<rparr>"
  from main_unfold[OF p c] assms obtain s2 where
    cl: "compare_loop E ?t (read_lines file1) (read_lines file2) = Inr s2"
    and s: "s = (if 0 < diff s2 then emit (found_msg s2) s2 else s2)"
    by (cases "compare_loop E ?t (read_lines file1) (read_lines file2)") auto
  from parse_options_Inr[OF p] have "out u = []" by (simp add: startup_sel)
  then have "diagnostics_ok E ?t" by (simp add: diagnostics_ok_def)
  with compare_loop_preserves[OF cl] have ok: "diagnostics_ok E s2" by simp
  have o: "out s = out s2 @ (if 0 < diff s then [found_msg s] else [])"
    by (simp add: s found_msg_def)
  have len: "length (out s2) = diff s + (if ignore_ws E then 0 else wsdiff s)"
    using ok by (simp add: s diagnostics_ok_def)
  have recs: "\<forall>m\<in>set (out s2). is_record m"
    using ok by (simp add: diagnostics_ok_def)
  then have dr: "list_all diagnostic_record (out s2)"
    by (simp add: list_all_iff record_lines(1))
  from recs have ends: "\<forall>r\<in>set (out s2). \<exists>r'. r = r' @ [newline]"
    by (simp add: record_lines(2))
  have "concat (out s) = concat (out s2) @ (if 0 < diff s then found_msg s else [])"
    by (simp add: o)
  then have "text_lines (concat (out s))
      = concat (map text_lines (out s2)) @ text_lines (if 0 < diff s then found_msg s else [])"
    using text_lines_concat[OF ends] by simp
  also have "text_lines (if 0 < diff s then found_msg s else [])
      = (if 0 < diff s then [summary_line s] else [])"
    by (simp add: found_msg_lines) (simp add: text_lines_def)
  finally have "text_lines (concat (out s))
      = concat (map text_lines (out s2)) @ (if 0 < diff s then [summary_line s] else [])" .
  with o len dr show ?thesis by blast
qed

theorem output_of_main_witness:
  "\<exists>s. main ex_ext ex_differ2 ex_state = Return s
       \<and> (\<exists>recs. out s = recs @ (if 0 < diff s then [found_msg s] else [])
            \<and> length recs = diff s + (if ignore_ws ex_ext then 0 else wsdiff s)
            \<and> list_all diagnostic_record recs
            \<and> text_lines (concat (out s))
                = concat (map text_lines recs)
                  @ (if 0 < diff s then [summary_line s] else []))"
proof -
  have "is_Return (main ex_ext ex_differ2 ex_state)" by code_simp
  then obtain s where s: "main ex_ext ex_differ2 ex_state = Return s"
    by (cases "main ex_ext ex_differ2 ex_state") simp_all
  from output_of_main[OF s] s show ?thesis by blast
qed

end
